theory Spec2Isabelle
  imports Main
begin

section \<open>Type generation for SQL call sites: tag assignment, rendering and source patching\<close>

text \<open>
  A shallow embedding of \<^verbatim>\<open>packages/typegen/src/gdesc/write/inline.ts\<close>.
  JavaScript strings are Isabelle strings; a character is a code unit below 256.
  An exception of the source is a value \<open>Inl e\<close> of the result type.
\<close>

datatype error =
    TypeError
  | AssertionError string
  | ENOENT string

subsection \<open>String and collection primitives of the host language\<close>

fun startsWith :: "string \<Rightarrow> string \<Rightarrow> bool" where
  "startsWith s [] = True"
| "startsWith [] (p # ps) = False"
| "startsWith (c # cs) (p # ps) = (c = p \<and> startsWith cs ps)"

definition endsWith :: "string \<Rightarrow> string \<Rightarrow> bool" where
  "endsWith s p = startsWith (rev s) (rev p)"

text \<open>\<^verbatim>\<open>s.includes(p)\<close>: \<open>p\<close> occurs in \<open>s\<close> as a contiguous substring.\<close>

fun includesStr :: "string \<Rightarrow> string \<Rightarrow> bool" where
  "includesStr [] p = (p = [])"
| "includesStr (c # cs) p = (startsWith (c # cs) p \<or> includesStr cs p)"

text \<open>\<^verbatim>\<open>s.replace(p, r)\<close> with a string pattern: the first occurrence only.\<close>

fun replaceFirst :: "string \<Rightarrow> string \<Rightarrow> string \<Rightarrow> string" where
  "replaceFirst [] p r = (if p = [] then r else [])"
| "replaceFirst (c # cs) p r =
     (if startsWith (c # cs) p then r @ drop (length p) (c # cs)
      else c # replaceFirst cs p r)"

text \<open>\<^verbatim>\<open>s.replace(/'/g, '"')\<close>: every single quote becomes a double quote.\<close>

definition doubleQuotes :: "string \<Rightarrow> string" where
  "doubleQuotes s = map (\<lambda>c. if c = CHR 0x27 then CHR 0x22 else c) s"

text \<open>\<^verbatim>\<open>xs.join(sep)\<close>.\<close>

fun join :: "string \<Rightarrow> string list \<Rightarrow> string" where
  "join sep [] = []"
| "join sep [x] = x"
| "join sep (x # y # ys) = x @ sep @ join sep (y # ys)"

text \<open>\<^verbatim>\<open>s.split('\n')\<close>: the pieces between line feeds; the empty string gives one empty piece.\<close>

fun splitLines :: "string \<Rightarrow> string list" where
  "splitLines [] = [[]]"
| "splitLines (c # cs) =
     (if c = CHR 0x0A then [] # splitLines cs
      else (case splitLines cs of [] \<Rightarrow> [[c]] | l # ls \<Rightarrow> (c # l) # ls))"

definition isSpace :: "char \<Rightarrow> bool" where
  "isSpace c = (c \<in> set [CHR 0x09, CHR 0x0A, CHR 0x0B, CHR 0x0C, CHR 0x0D, CHR 0x20, CHR 0xA0])"

definition trim :: "string \<Rightarrow> string" where
  "trim s = rev (dropWhile isSpace (rev (dropWhile isSpace s)))"

text \<open>The decimal numeral of an array index, as string concatenation prints a number.\<close>

definition digit :: "nat \<Rightarrow> char" where
  "digit d = char_of (48 + d)"

fun String_nat :: "nat \<Rightarrow> string" where
  "String_nat n = (if n < 10 then [digit n] else String_nat (n div 10) @ [digit (n mod 10)])"

declare String_nat.simps [simp del]

text \<open>\<^verbatim>\<open>JSON.stringify\<close> of a string: quoted, with the escapes of the JSON grammar.\<close>

definition hexDigit :: "nat \<Rightarrow> char" where
  "hexDigit d = (if d < 10 then char_of (48 + d) else char_of (87 + d))"

definition quoteChar :: "char \<Rightarrow> string" where
  "quoteChar c =
     (if c = CHR 0x22 then [CHR 0x5C, CHR 0x22]
      else if c = CHR 0x5C then [CHR 0x5C, CHR 0x5C]
      else if c = CHR 0x08 then [CHR 0x5C, CHR ''b'']
      else if c = CHR 0x0C then [CHR 0x5C, CHR ''f'']
      else if c = CHR 0x0A then [CHR 0x5C, CHR ''n'']
      else if c = CHR 0x0D then [CHR 0x5C, CHR ''r'']
      else if c = CHR 0x09 then [CHR 0x5C, CHR ''t'']
      else if of_char c < (32 :: nat)
        then [CHR 0x5C, CHR ''u'', CHR ''0'', CHR ''0'',
              hexDigit (of_char c div 16), hexDigit (of_char c mod 16)]
      else [c])"

definition JSON_stringify :: "string \<Rightarrow> string" where
  "JSON_stringify s = [CHR 0x22] @ concat (map quoteChar s) @ [CHR 0x22]"

text \<open>\<^verbatim>\<open>lodash.findIndex\<close>: the index of the first element satisfying the predicate;
  \<open>None\<close> stands for the source's \<open>-1\<close>.\<close>

fun findIndex :: "('a \<Rightarrow> bool) \<Rightarrow> 'a list \<Rightarrow> nat option" where
  "findIndex P [] = None"
| "findIndex P (x # xs) =
     (if P x then Some 0 else map_option Suc (findIndex P xs))"

text \<open>\<^verbatim>\<open>lodash.sortBy\<close> is a stable sort, ascending in the key.\<close>

definition sortBy :: "('a \<Rightarrow> 'k::linorder) \<Rightarrow> 'a list \<Rightarrow> 'a list" where
  "sortBy f xs = sort_key f xs"

text \<open>\<^verbatim>\<open>lodash.uniqBy\<close>: the first element of each key, in the order of the list.\<close>

fun uniqFrom :: "'k list \<Rightarrow> ('a \<Rightarrow> 'k) \<Rightarrow> 'a list \<Rightarrow> 'a list" where
  "uniqFrom seen f [] = []"
| "uniqFrom seen f (x # xs) =
     (if f x \<in> set seen then uniqFrom seen f xs else x # uniqFrom (f x # seen) f xs)"

definition uniqBy :: "('a \<Rightarrow> 'k) \<Rightarrow> 'a list \<Rightarrow> 'a list" where
  "uniqBy f xs = uniqFrom [] f xs"

text \<open>\<^verbatim>\<open>lodash.keyBy\<close>: an object from key to element; a later element overwrites an earlier one.\<close>

definition keyBy :: "('a \<Rightarrow> 'k) \<Rightarrow> 'a list \<Rightarrow> ('k \<rightharpoonup> 'a)" where
  "keyBy f xs = map_of (rev (map (\<lambda>x. (f x, x)) xs))"

text \<open>\<^verbatim>\<open>lodash.groupBy\<close> adds a key to its result object when the key first occurs, and
  appends each element to the array of its key.\<close>

fun groupBy :: "('a \<Rightarrow> 'k) \<Rightarrow> 'a list \<Rightarrow> ('k \<times> 'a list) list" where
  "groupBy f [] = []"
| "groupBy f (x # xs) =
     (f x, x # filter (\<lambda>y. f y = f x) xs) # groupBy f (filter (\<lambda>y. f y \<noteq> f x) xs)"

text \<open>
  The entries of an object with string keys, in the order in which the object lists them: the
  keys that are array indices (a decimal numeral without a leading zero, below \<open>2\<^sup>3\<^sup>2 - 1\<close>)
  come first, in ascending numeric order, and the other keys follow in the order in which they
  were added. \<^verbatim>\<open>mapValues\<close>, \<^verbatim>\<open>map\<close> and \<^verbatim>\<open>forIn\<close> visit the properties in this order.
\<close>

definition isDigit :: "char \<Rightarrow> bool" where
  "isDigit c = (48 \<le> (of_char c :: nat) \<and> (of_char c :: nat) \<le> 57)"

definition numberOf :: "string \<Rightarrow> int" where
  "numberOf s = foldl (\<lambda>n c. 10 * n + (of_char c - 48)) 0 s"

definition isArrayIndex :: "string \<Rightarrow> bool" where
  "isArrayIndex s =
     (s \<noteq> [] \<and> list_all isDigit s \<and> (if hd s = CHR ''0'' then length s = 1 else True) \<and>
      numberOf s < 4294967295)"

definition objectEntries :: "(string \<times> 'a) list \<Rightarrow> (string \<times> 'a) list" where
  "objectEntries added =
     sort_key (\<lambda>entry. numberOf (fst entry)) (filter (\<lambda>entry. isArrayIndex (fst entry)) added) @
     filter (\<lambda>entry. \<not> isArrayIndex (fst entry)) added"

text \<open>Running a list of fallible steps: the first exception ends the run.\<close>

fun mapE :: "('a \<Rightarrow> error + 'b) \<Rightarrow> 'a list \<Rightarrow> error + 'b list" where
  "mapE f [] = Inr []"
| "mapE f (x # xs) =
     (case f x of
        Inl e \<Rightarrow> Inl e
      | Inr y \<Rightarrow> (case mapE f xs of Inl e \<Rightarrow> Inl e | Inr ys \<Rightarrow> Inr (y # ys)))"

subsection \<open>Data model\<close>

text \<open>
  Modelled from the spec: the declarations of \<^verbatim>\<open>AnalysedQuery\<close> and of its fields live in
  \<^verbatim>\<open>../types\<close>, which is not part of the sources at hand. The properties are those
  the data model lists, with the field comment that \<^verbatim>\<open>interfaceBody\<close> reads; an optional
  property that is \<^verbatim>\<open>undefined\<close> is \<open>None\<close>. The property \<^verbatim>\<open>fields\<close> of a
  query is \<open>qfields\<close> and the \<^verbatim>\<open>comment\<close> of a field is \<open>fcomment\<close>, the plain names
  being taken.
\<close>

record Field =
  name :: string
  typescript :: string
  notNull :: bool
  column :: "string option"
  gdesc :: "string option"
  fcomment :: "string option"

record AnalysedQuery =
  "file" :: string
  sql :: string
  "text" :: string
  qfields :: "Field list"
  suggestedTags :: "string list"
  comment :: "string option"

record TaggedQuery = AnalysedQuery +
  tag :: string

record Candidate = TaggedQuery +
  alternatives :: "string list"

record Ranked = Candidate +
  priority :: nat

text \<open>
  Modelled from the spec: \<^verbatim>\<open>JSON.stringify(q.fields)\<close> prints each field object as its
  defined properties in the order the object was built with, which the missing analysis code
  fixes; the order of the data model is taken here. No result below depends on that order.
\<close>

definition optProp :: "string \<Rightarrow> string option \<Rightarrow> string list" where
  "optProp k v = (case v of None \<Rightarrow> [] | Some s \<Rightarrow> [JSON_stringify k @ '':'' @ JSON_stringify s])"

definition JSON_stringify_field :: "Field \<Rightarrow> string" where
  "JSON_stringify_field f =
     ''{'' @ join '','' (
        [JSON_stringify ''name'' @ '':'' @ JSON_stringify (name f),
         JSON_stringify ''typescript'' @ '':'' @ JSON_stringify (typescript f),
         JSON_stringify ''notNull'' @ '':'' @ (if notNull f then ''true'' else ''false'')]
        @ optProp ''column'' (column f)
        @ optProp ''gdesc'' (gdesc f)
        @ optProp ''comment'' (fcomment f)) @ ''}''"

definition JSON_stringify_fields :: "Field list \<Rightarrow> string" where
  "JSON_stringify_fields fs = ''['' @ join '','' (map JSON_stringify_field fs) @ '']''"

text \<open>The source stores the identifier in a copy of the query; every later copy spreads
  the same query, so the stored property is this function of its fields.\<close>

definition "identifier" :: "'a AnalysedQuery_scheme \<Rightarrow> string" where
  "identifier q = JSON_stringify_fields (qfields q)"

subsection \<open>Tag assignment\<close>

definition withTag :: "AnalysedQuery \<Rightarrow> string \<Rightarrow> TaggedQuery" where
  "withTag q t =
     \<lparr>file = file q, sql = sql q, text = text q, qfields = qfields q,
      suggestedTags = suggestedTags q, comment = comment q, tag = t\<rparr>"

definition candidate :: "AnalysedQuery \<Rightarrow> string \<Rightarrow> string list \<Rightarrow> Candidate" where
  "candidate q t allTags =
     \<lparr>file = file q, sql = sql q, text = text q, qfields = qfields q,
      suggestedTags = suggestedTags q, comment = comment q, tag = t,
      alternatives = allTags\<rparr>"

definition ranked :: "Candidate \<Rightarrow> string \<Rightarrow> nat \<Rightarrow> Ranked" where
  "ranked q t p =
     \<lparr>file = file q, sql = sql q, text = text q, qfields = qfields q,
      suggestedTags = suggestedTags q, comment = comment q, tag = t,
      alternatives = alternatives q, priority = p\<rparr>"

text \<open>The \<^verbatim>\<open>flatMap\<close> of \<^verbatim>\<open>addTags\<close>: one candidate for each suggested tag of each query.\<close>

definition candidates :: "AnalysedQuery list \<Rightarrow> Candidate list" where
  "candidates queries =
     concat (map (\<lambda>q. map (\<lambda>t. candidate q t (suggestedTags q)) (suggestedTags q)) queries)"

definition sortedCandidates :: "AnalysedQuery list \<Rightarrow> Candidate list" where
  "sortedCandidates queries = sortBy (\<lambda>q. length (alternatives q)) (candidates queries)"

text \<open>The callback of the \<^verbatim>\<open>map\<close> over the sorted array \<open>arr\<close>. When \<^verbatim>\<open>findIndex\<close>
  finds nothing it returns \<open>-1\<close>, and reading a property of \<^verbatim>\<open>arr[-1]\<close> throws.\<close>

definition retag :: "Candidate list \<Rightarrow> Candidate \<Rightarrow> error + Ranked" where
  "retag arr q =
     (case findIndex (\<lambda>ob. tag ob = tag q) arr of
        None \<Rightarrow> Inl TypeError
      | Some firstWithTagIndex \<Rightarrow>
          (let matchesFirstTag = (identifier (arr ! firstWithTagIndex) = identifier q)
           in Inr (ranked q
                (if matchesFirstTag then tag q else tag q @ ''_'' @ String_nat firstWithTagIndex)
                (if matchesFirstTag then 0 else 1))))"

definition rankedCandidates :: "AnalysedQuery list \<Rightarrow> error + Ranked list" where
  "rankedCandidates queries =
     (let arr = sortedCandidates queries in mapE (retag arr) arr)"

definition tagMap :: "AnalysedQuery list \<Rightarrow> error + (string \<rightharpoonup> Ranked)" where
  "tagMap queries =
     (case rankedCandidates queries of
        Inl e \<Rightarrow> Inl e
      | Inr rs \<Rightarrow> Inr (keyBy identifier (uniqBy identifier (sortBy priority rs))))"

text \<open>The final \<^verbatim>\<open>map\<close>: a query whose identifier is not a key of the tag map reads
  \<^verbatim>\<open>.tag\<close> of \<^verbatim>\<open>undefined\<close>, which throws.\<close>

definition lookupTag :: "(string \<rightharpoonup> Ranked) \<Rightarrow> AnalysedQuery \<Rightarrow> error + TaggedQuery" where
  "lookupTag m q =
     (case m (identifier q) of
        None \<Rightarrow> Inl TypeError
      | Some r \<Rightarrow> Inr (withTag q (tag r)))"

definition addTags :: "AnalysedQuery list \<Rightarrow> error + TaggedQuery list" where
  "addTags queries =
     (case tagMap queries of
        Inl e \<Rightarrow> Inl e
      | Inr m \<Rightarrow> mapE (lookupTag m) queries)"

subsection \<open>Rendering an interface\<close>

abbreviation NL :: string where "NL \<equiv> [CHR 0x0A]"
abbreviation BT :: string where "BT \<equiv> [CHR 0x60]"
abbreviation SQ :: string where "SQ \<equiv> [CHR 0x27]"

text \<open>\<^verbatim>\<open>jsdocComment\<close>: the lines that are strings, joined by blank lines, trimmed, each line
  starred; a comment of one line is closed on that line.\<close>

definition jsdocComment :: "string option list \<Rightarrow> string" where
  "jsdocComment lines =
     (let middle = join NL (map (\<lambda>line. ''* '' @ line)
                    (splitLines (trim (join (NL @ NL) (List.map_filter id lines)))))
      in if includesStr middle NL
         then ''/**'' @ NL @ middle @ NL @ ''*/''
         else replaceFirst (''/** '' @ middle @ '' */'') ''* *'' ''*'')"

text \<open>The type expression of one property, the constant \<^verbatim>\<open>type\<close> of \<^verbatim>\<open>interfaceBody\<close>.\<close>

definition fieldType :: "Field \<Rightarrow> string" where
  "fieldType f =
     (if notNull f \<or> typescript f = ''any'' \<or> typescript f = ''unknown''
      then typescript f
      else ''('' @ typescript f @ '') | null'')"

text \<open>The entries of the \<^verbatim>\<open>meta\<close> object that are truthy, each with its value printed:
  an absent or empty string and the boolean \<^verbatim>\<open>false\<close> are dropped.\<close>

definition truthyString :: "string option \<Rightarrow> string option" where
  "truthyString v = (case v of None \<Rightarrow> None | Some s \<Rightarrow> if s = [] then None else Some s)"

definition fieldMeta :: "Field \<Rightarrow> string" where
  "fieldMeta f =
     join '', '' (map (\<lambda>e. fst e @ '': '' @ BT @ snd e @ BT)
       (List.map_filter (\<lambda>e. map_option (Pair (fst e)) (snd e))
          [(''column'', truthyString (column f)),
           (''not null'', if notNull f then Some ''true'' else None),
           (''postgres type'', truthyString (gdesc f))]))"

definition fieldDecl :: "Field \<Rightarrow> string" where
  "fieldDecl f =
     (let prop = JSON_stringify (name f);
          type = fieldType f;
          meta = fieldMeta f
      in NL @ ''          '' @ jsdocComment [fcomment f, Some meta] @
         NL @ ''          '' @ prop @ '': '' @ type @
         NL @ ''        '')"

definition interfaceBody :: "'a AnalysedQuery_scheme \<Rightarrow> string" where
  "interfaceBody query =
     ''{'' @ NL @ ''    '' @ join NL (map fieldDecl (qfields query)) @ NL @ ''}''"

text \<open>
  The collaborators of the writer that are not part of the sources at hand: the parser of
  the \<^verbatim>\<open>typescript\<close> package, its printer behind \<^verbatim>\<open>tsPrettify\<close>, the formatter
  \<^verbatim>\<open>prettifyOne\<close>, the path helpers, and \<^verbatim>\<open>jsdocQuery\<close>, the composition of
  \<^verbatim>\<open>simplifyWhitespace\<close> and \<^verbatim>\<open>truncate\<close> of \<^verbatim>\<open>../util\<close>. They are parameters, taken
  to return without an exception. A syntax tree carries what the walk reads of a node:
  \<open>Node kind start end fullText children\<close> is a node with the results of \<^verbatim>\<open>getStart\<close>,
  \<^verbatim>\<open>getEnd\<close> and \<^verbatim>\<open>getFullText\<close> and the children that \<^verbatim>\<open>forEachChild\<close> visits, in its
  order. The kind of a module declaration holds the text of its name; the kind of a tagged
  template holds its tag and the start of its template; a tag that is an identifier holds
  its text and its start.
\<close>

datatype TagNode =
    Identifier string nat
  | OtherExpression

datatype SyntaxKind =
    ModuleDeclaration string
  | TaggedTemplateExpression TagNode nat
  | OtherKind

datatype Node = Node SyntaxKind nat nat string "Node list"

record Collaborators =
  createSourceFile :: "string \<Rightarrow> string \<Rightarrow> Node"
  tsPrettify :: "string \<Rightarrow> string"
  prettifyOne :: "string \<Rightarrow> string \<Rightarrow> string"
  relativeUnixPath :: "string \<Rightarrow> string \<Rightarrow> string"
  dirname :: "string \<Rightarrow> string"
  jsdocQuery :: "string \<Rightarrow> string"

text \<open>\<^verbatim>\<open>renderQueryInterface\<close>. Destructuring an empty group leaves \<^verbatim>\<open>query\<close> undefined,
  and reading its \<^verbatim>\<open>sql\<close> throws; \<^verbatim>\<open>assert.strictEqual\<close> throws unless the set of bodies
  has one element.\<close>

definition renderQueryInterface ::
  "Collaborators \<Rightarrow> 'a AnalysedQuery_scheme list \<Rightarrow> string \<Rightarrow> error + string" where
  "renderQueryInterface env queryGroup interfaceName =
     (case queryGroup of
        [] \<Rightarrow> Inl TypeError
      | query # rest \<Rightarrow>
          (let comments =
                 (if length rest = 0
                  then [Some (''- query: '' @ BT @ jsdocQuery env (sql query) @ BT), comment query]
                  else Some (''queries:'' @ NL @
                         join NL (map (\<lambda>q. ''- '' @ BT @ jsdocQuery env (sql q) @ BT) queryGroup))
                       # map comment queryGroup);
               bodies = map interfaceBody queryGroup;
               numBodies = length (remdups bodies)
           in if numBodies \<noteq> 1
              then Inl (AssertionError (''Query group '' @ interfaceName @
                     '' produced inconsistent interface bodies: '' @ join '','' bodies))
              else Inr (NL @ ''    '' @ jsdocComment comments @
                        NL @ ''     export interface '' @ interfaceName @ '' '' @ bodies ! 0 @
                        NL @ ''  '')))"

definition queryInterfaces :: "Collaborators \<Rightarrow> TaggedQuery list \<Rightarrow> error + string" where
  "queryInterfaces env grp =
     (case mapE (\<lambda>g. renderQueryInterface env (snd g) (fst g))
             (objectEntries (groupBy tag grp)) of
        Inl e \<Rightarrow> Inl e
      | Inr rendered \<Rightarrow> Inr (tsPrettify env (join (NL @ NL) rendered)))"

definition queriesModule :: "Collaborators \<Rightarrow> TaggedQuery list \<Rightarrow> error + string" where
  "queriesModule env grp =
     (case queryInterfaces env grp of
        Inl e \<Rightarrow> Inl e
      | Inr interfaces \<Rightarrow>
          Inr (NL @ tsPrettify env
                 (NL @ ''    module queries {'' @ NL @ ''      '' @ interfaces @
                  NL @ ''    }'' @ NL @ ''  '')))"

subsection \<open>Patching a source file\<close>

record Edit =
  start :: nat
  "end" :: nat
  replacement :: string

text \<open>The walk \<^verbatim>\<open>visit\<close>, returning the edits it pushes, in the order it pushes them.\<close>

fun visit :: "TaggedQuery list \<Rightarrow> Node \<Rightarrow> Edit list" where
  "visit grp (Node kind nodeStart nodeEnd fullText children) =
     (case kind of
        ModuleDeclaration nm \<Rightarrow>
          if nm = ''queries''
          then [\<lparr>start = nodeStart, end = nodeEnd, replacement = []\<rparr>]
          else []
      | _ \<Rightarrow> [])
     @
     (case kind of
        TaggedTemplateExpression (Identifier tagText tagStart) templateStart \<Rightarrow>
          if tagText = ''sql''
          then (case find (\<lambda>q. text q = fullText) grp of
                  Some match \<Rightarrow>
                    [\<lparr>start = tagStart, end = templateStart,
                      replacement = ''sql<queries.'' @ tag match @ ''>''\<rparr>]
                | None \<Rightarrow> [])
          else []
      | _ \<Rightarrow> [])
     @ concat (map (visit grp) children)"

text \<open>Lines 184 to 188: the edits sorted by descending end, each spliced into the text that
  the edits before it left. \<^verbatim>\<open>slice\<close> clamps an offset beyond the end of the text.\<close>

definition splice :: "string \<Rightarrow> Edit \<Rightarrow> string" where
  "splice source e = take (start e) source @ replacement e @ drop (end e) source"

definition applyEdits :: "string \<Rightarrow> Edit list \<Rightarrow> string" where
  "applyEdits source edits = foldl splice source (sortBy (\<lambda>e. - int (end e)) edits)"

text \<open>\<^verbatim>\<open>importPath.replace(/\.(js|ts|tsx)$/, '')\<close>: one of the three extensions, at the end
  of the path, is removed.\<close>

definition stripExtension :: "string \<Rightarrow> string" where
  "stripExtension p =
     (if endsWith p ''.js'' \<or> endsWith p ''.ts'' then take (length p - 3) p
      else if endsWith p ''.tsx'' then take (length p - 4) p
      else p)"

definition importStatement :: "Collaborators \<Rightarrow> string \<Rightarrow> string \<Rightarrow> string" where
  "importStatement env filePath destPath =
     (let importPath = relativeUnixPath env destPath (dirname env filePath)
      in ''import * as queries from '' @ SQ @ ''./'' @ stripExtension importPath @ SQ)"

definition importExists :: "string \<Rightarrow> string \<Rightarrow> bool" where
  "importExists source stmt =
     (includesStr source stmt \<or>
      includesStr source (doubleQuotes stmt) \<or>
      includesStr source (replaceFirst stmt ''import * as'' ''import''))"

text \<open>
  The file system is the content of each path that holds a file. \<^verbatim>\<open>readFileSync\<close> throws
  for a path that holds none. \<^verbatim>\<open>mkdirSync\<close> with \<^verbatim>\<open>recursive\<close> creates the directory of the
  destination, so the write after it finds its directory; directories are not recorded.
  An exception leaves the file system as it was: every write of one call comes after the
  last point where the call can throw.
\<close>

type_synonym FileSystem = "string \<rightharpoonup> string"

definition getFileWriter ::
  "Collaborators \<Rightarrow> (string \<Rightarrow> string) \<Rightarrow> TaggedQuery list \<Rightarrow> string \<Rightarrow> FileSystem
     \<Rightarrow> error + FileSystem" where
  "getFileWriter env getQueriesModule grp filePath fs =
     (case fs filePath of
        None \<Rightarrow> Inl (ENOENT filePath)
      | Some source \<Rightarrow>
          (let sourceFile = createSourceFile env filePath source;
               visited = visit grp sourceFile;
               destPath = getQueriesModule filePath;
               planned =
                 (if destPath = filePath
                  then (case queriesModule env grp of
                          Inl e \<Rightarrow> Inl e
                        | Inr generated \<Rightarrow>
                            Inr (fs, visited @
                                 [\<lparr>start = length source, end = length source,
                                   replacement = generated\<rparr>]))
                  else (case queryInterfaces env grp of
                          Inl e \<Rightarrow> Inl e
                        | Inr content \<Rightarrow>
                            (let written = fs(destPath \<mapsto> prettifyOne env destPath content);
                                 stmt = importStatement env filePath destPath
                             in Inr (written,
                                  if \<not> importExists source stmt
                                  then visited @ [\<lparr>start = 0, end = 0, replacement = stmt @ NL\<rparr>]
                                  else visited))))
           in case planned of
                Inl e \<Rightarrow> Inl e
              | Inr (written, edits) \<Rightarrow>
                  (let patched = applyEdits source edits
                   in if endsWith filePath ''.sql'' then Inr written
                      else Inr (written(filePath \<mapsto> prettifyOne env filePath patched)))))"

text \<open>\<^verbatim>\<open>writeTypeScriptFiles\<close>. The chain runs stage by stage when its value is taken:
  the queries are grouped by file, \<^verbatim>\<open>addTags\<close> runs on the group of every file, and only
  then is the writer called on one file after the other. \<^verbatim>\<open>pickBy(Boolean)\<close> keeps every
  group, an array being truthy. The first exception ends the run with the files written so
  far.\<close>

definition taggedGroups :: "AnalysedQuery list \<Rightarrow> error + (string \<times> TaggedQuery list) list" where
  "taggedGroups queries =
     mapE (\<lambda>g. case addTags (snd g) of Inl e \<Rightarrow> Inl e | Inr tagged \<Rightarrow> Inr (fst g, tagged))
       (objectEntries (groupBy file queries))"

fun forIn ::
  "(TaggedQuery list \<Rightarrow> string \<Rightarrow> FileSystem \<Rightarrow> error + FileSystem)
     \<Rightarrow> (string \<times> TaggedQuery list) list \<Rightarrow> FileSystem \<Rightarrow> FileSystem \<times> error option" where
  "forIn writer [] fs = (fs, None)"
| "forIn writer (g # gs) fs =
     (case writer (snd g) (fst g) fs of
        Inl e \<Rightarrow> (fs, Some e)
      | Inr fs' \<Rightarrow> forIn writer gs fs')"

definition writeTypeScriptFiles ::
  "Collaborators \<Rightarrow> (string \<Rightarrow> string) \<Rightarrow> AnalysedQuery list \<Rightarrow> FileSystem
     \<Rightarrow> FileSystem \<times> error option" where
  "writeTypeScriptFiles env getQueriesModule queries fs =
     (case taggedGroups queries of
        Inl e \<Rightarrow> (fs, Some e)
      | Inr groups \<Rightarrow> forIn (getFileWriter env getQueriesModule) groups fs)"

subsection \<open>Example inputs\<close>

definition idField :: "string \<Rightarrow> Field" where
  "idField ty =
     \<lparr>name = ''id'', typescript = ty, notNull = True, column = None, gdesc = None,
      fcomment = None\<rparr>"

definition messageQuery :: "string \<Rightarrow> string \<Rightarrow> string list \<Rightarrow> AnalysedQuery" where
  "messageQuery path ty tags =
     \<lparr>file = path, sql = ''select id from message'', text = ''sql`select id from message`'',
      qfields = [idField ty], suggestedTags = tags, comment = None\<rparr>"

definition threeShapes :: "AnalysedQuery list" where
  "threeShapes =
     [messageQuery ''a.ts'' ''number'' [''Message''],
      messageQuery ''a.ts'' ''string'' [''Message''],
      messageQuery ''a.ts'' ''boolean'' [''Message'']]"

definition twoFiles :: "AnalysedQuery list" where
  "twoFiles =
     [messageQuery ''a.ts'' ''string'' [''Message''],
      messageQuery ''a.ts'' ''number'' [''Message'', ''Message_id''],
      messageQuery ''b.ts'' ''number'' [''Message'', ''Message_id'']]"

definition sharedShape :: "AnalysedQuery list" where
  "sharedShape =
     [messageQuery ''a.ts'' ''number'' [],
      messageQuery ''a.ts'' ''number'' [''Message'']]"

definition tagsOf :: "error + TaggedQuery list \<Rightarrow> error + string list" where
  "tagsOf r = map_sum id (map tag) r"

definition groupTagsOf ::
  "error + (string \<times> TaggedQuery list) list \<Rightarrow> error + (string \<times> string list) list" where
  "groupTagsOf r = map_sum id (map (map_prod id (map tag))) r"

definition collidingPair :: "AnalysedQuery list" where
  "collidingPair =
     [messageQuery ''a.ts'' ''number'' [''Message'', ''Message_id''],
      messageQuery ''a.ts'' ''string'' [''Message'']]"


definition fooField :: Field where
  "fooField =
     \<lparr>name = ''foo'', typescript = ''number'', notNull = True,
      column = Some ''example_test.test_table.foo'', gdesc = Some ''integer'',
      fcomment = None\<rparr>"

definition barField :: Field where
  "barField =
     \<lparr>name = ''bar'', typescript = ''string'', notNull = False,
      column = Some ''example_test.test_table.bar'', gdesc = Some ''text'',
      fcomment = Some ''Look, ma! A comment from postgres!''\<rparr>"

definition testTableQuery :: AnalysedQuery where
  "testTableQuery =
     \<lparr>file = ''index.ts'', sql = ''select foo, bar from test_table'',
      text = ''sql`select foo, bar from test_table`'',
      qfields = [fooField, barField], suggestedTags = [''TestTable'', ''TestTable_foo_bar''],
      comment = None\<rparr>"

subsection \<open>Notions used to state the properties of the patcher\<close>

text \<open>The nodes that the walk reaches from a node, in the order it reaches them.\<close>

fun subnodes :: "Node \<Rightarrow> Node list" where
  "subnodes (Node kind nodeStart nodeEnd fullText children) =
     Node kind nodeStart nodeEnd fullText children # concat (map subnodes children)"

text \<open>A list of edits, in the order in which they are applied, is separated below a bound
  when each edit is a span that ends at or before the bound, the bound of the edits after
  it being its start: every edit lies to the left of the edits applied before it.\<close>

fun separated :: "nat \<Rightarrow> Edit list \<Rightarrow> bool" where
  "separated bound [] = True"
| "separated bound (e # es) = (start e \<le> end e \<and> end e \<le> bound \<and> separated (start e) es)"

text \<open>The text with each span replaced on its own, every offset being an offset of the
  original text; the edits are listed from the rightmost span to the leftmost.\<close>

fun replaceSpans :: "string \<Rightarrow> Edit list \<Rightarrow> string" where
  "replaceSpans source [] = source"
| "replaceSpans source (e # es) =
     replaceSpans (take (start e) source) es @ replacement e @ drop (end e) source"

text \<open>Two spans overlap when neither ends at or before the start of the other.\<close>

definition disjointSpans :: "Edit \<Rightarrow> Edit \<Rightarrow> bool" where
  "disjointSpans a b = (end a \<le> start b \<or> end b \<le> start a)"

subsection \<open>An example file\<close>

definition exampleTools :: "(string \<Rightarrow> string \<Rightarrow> Node) \<Rightarrow> Collaborators" where
  "exampleTools parse =
     \<lparr>createSourceFile = parse, tsPrettify = (\<lambda>content. content),
      prettifyOne = (\<lambda>path content. content),
      relativeUnixPath = (\<lambda>dest dir. dest), dirname = (\<lambda>path. ''.''),
      jsdocQuery = (\<lambda>query. query)\<rparr>"

definition emptyTree :: "string \<Rightarrow> string \<Rightarrow> Node" where
  "emptyTree path source = Node OtherKind 0 (length source) source []"

definition exampleSource :: string where
  "exampleSource = ''q(sql`select id from message`)'' @ NL"

definition exampleGroup :: "TaggedQuery list" where
  "exampleGroup = [withTag (messageQuery ''a.ts'' ''number'' [''Message'']) ''Message'']"

text \<open>The tree of the example source, and the trees of the sources that were patched
  before: the call site then carries its type argument, and either an import starts the file
  or a module \<open>queries\<close> ends it.\<close>

definition exampleParse :: "string \<Rightarrow> string \<Rightarrow> Node" where
  "exampleParse path source =
     (if source = exampleSource
      then Node OtherKind 0 (length source) source
             [Node (TaggedTemplateExpression (Identifier ''sql'' 2) 5) 2 29
                ''sql`select id from message`'' []]
      else if startsWith source ''import''
      then (let line = length (takeWhile (\<lambda>c. c \<noteq> CHR 0x0A) source) in
            Node OtherKind 0 (length source) source
             [Node OtherKind 0 line (take line source) [],
              Node (TaggedTemplateExpression (Identifier ''sql'' (line + 3)) (line + 23))
                (line + 3) (line + 47) ''sql<queries.Message>`select id from message`'' []])
      else Node OtherKind 0 (length source) source
             [Node (TaggedTemplateExpression (Identifier ''sql'' 2) 22) 2 46
                ''sql<queries.Message>`select id from message`'' [],
              Node (ModuleDeclaration ''queries'') 54 (length source - 3)
                (drop 48 (take (length source - 3) source)) []])"

text \<open>
  \<^verbatim>\<open>defaultGetQueriesModule\<close>, lines 38 and 39, for the path of a file written in plain
  segments (single slashes, no \<^verbatim>\<open>.\<close> or \<^verbatim>\<open>..\<close> segment, no slash at the end), on which
  \<^verbatim>\<open>path.join\<close> of \<^verbatim>\<open>path.dirname\<close>, \<^verbatim>\<open>__sql__\<close> and \<^verbatim>\<open>path.basename\<close> puts the directory
  \<^verbatim>\<open>__sql__\<close> before the last segment: a file ending in \<^verbatim>\<open>.ts\<close> is its own destination.
\<close>

definition defaultGetQueriesModule :: "string \<Rightarrow> string" where
  "defaultGetQueriesModule filepath =
     (if endsWith filepath ''.ts'' then filepath
      else (let basename = rev (takeWhile (\<lambda>c. c \<noteq> CHR ''/'') (rev filepath));
                directory = take (length filepath - length basename) filepath
            in directory @ ''__sql__/'' @ basename @ ''.ts''))"

definition exampleInterfaces :: string where
  "exampleInterfaces =
     (case queryInterfaces (exampleTools exampleParse) exampleGroup of
        Inl e \<Rightarrow> [] | Inr content \<Rightarrow> content)"

definition exampleGenerated :: string where
  "exampleGenerated =
     (case queriesModule (exampleTools exampleParse) exampleGroup of
        Inl e \<Rightarrow> [] | Inr generated \<Rightarrow> generated)"

definition examplePatched :: string where
  "examplePatched = ''q(sql<queries.Message>`select id from message`)'' @ NL @ exampleGenerated"

text \<open>The content of a file after a run, and two runs of the writer on one file.\<close>

definition fileAfter :: "error + FileSystem \<Rightarrow> string \<Rightarrow> string option" where
  "fileAfter result path = (case result of Inl e \<Rightarrow> None | Inr fs \<Rightarrow> fs path)"

definition runTwice ::
  "Collaborators \<Rightarrow> (string \<Rightarrow> string) \<Rightarrow> TaggedQuery list \<Rightarrow> string \<Rightarrow> FileSystem
     \<Rightarrow> error + FileSystem" where
  "runTwice env getQueriesModule grp filePath fs =
     (case getFileWriter env getQueriesModule grp filePath fs of
        Inl e \<Rightarrow> Inl e
      | Inr fs1 \<Rightarrow> getFileWriter env getQueriesModule grp filePath fs1)"

definition firstRun :: "(string \<Rightarrow> string) \<Rightarrow> string \<Rightarrow> FileSystem" where
  "firstRun getQueriesModule path =
     (case getFileWriter (exampleTools exampleParse) getQueriesModule exampleGroup path
             [path \<mapsto> exampleSource] of
        Inl e \<Rightarrow> Map.empty
      | Inr fs \<Rightarrow> fs)"

section \<open>Properties\<close>

subsection \<open>The collection primitives\<close>

lemma findIndex_None: "findIndex P xs = None \<longleftrightarrow> (\<forall>x\<in>set xs. \<not> P x)"
  by (induction xs) auto

lemma findIndex_Some:
  "findIndex P xs = Some i \<Longrightarrow> i < length xs \<and> P (xs ! i) \<and> (\<forall>j<i. \<not> P (xs ! j))"
proof (induction xs arbitrary: i)
  case Nil
  then show ?case by simp
next
  case (Cons x xs)
  show ?case
  proof (cases "P x")
    case True
    with Cons.prems show ?thesis by simp
  next
    case False
    with Cons.prems obtain k where k: "findIndex P xs = Some k" "i = Suc k"
      by auto
    from Cons.IH [OF k(1)] False k(2) show ?thesis
      by (auto simp: nth_Cons split: nat.splits)
  qed
qed

lemma findIndex_first:
  "k < length xs \<Longrightarrow> P (xs ! k) \<Longrightarrow> \<exists>i\<le>k. findIndex P xs = Some i"
proof -
  assume k: "k < length xs" "P (xs ! k)"
  then have "findIndex P xs \<noteq> None"
    by (auto simp: findIndex_None)
  then obtain i where i: "findIndex P xs = Some i" by auto
  from findIndex_Some [OF i] k have "i \<le> k"
    by (meson not_le_imp_less)
  with i show ?thesis by blast
qed

lemma mapE_Inr_D: "mapE f xs = Inr ys \<Longrightarrow> list_all2 (\<lambda>x y. f x = Inr y) xs ys"
  by (induction xs arbitrary: ys) (auto split: sum.splits)

lemma mapE_Inr_I: "list_all2 (\<lambda>x y. f x = Inr y) xs ys \<Longrightarrow> mapE f xs = Inr ys"
  by (induction rule: list_all2_induct) auto

lemma mapE_Inl: "mapE f xs = Inl e \<Longrightarrow> \<exists>x\<in>set xs. f x = Inl e"
  by (induction xs) (auto split: sum.splits)

lemma mapE_total:
  "(\<And>x. x \<in> set xs \<Longrightarrow> f x = Inr (g x)) \<Longrightarrow> mapE f xs = Inr (map g xs)"
  by (induction xs) auto

lemma find_uniqFrom:
  "k \<notin> set seen \<Longrightarrow> find (\<lambda>x. f x = k) (uniqFrom seen f xs) = find (\<lambda>x. f x = k) xs"
  by (induction xs arbitrary: seen) auto

lemma uniqFrom_unseen: "x \<in> set (uniqFrom seen f xs) \<Longrightarrow> f x \<notin> set seen"
proof (induction xs arbitrary: seen)
  case Nil
  then show ?case by simp
next
  case (Cons a xs)
  show ?case
  proof (cases "f a \<in> set seen")
    case True
    with Cons show ?thesis by simp
  next
    case False
    with Cons.prems have "x = a \<or> x \<in> set (uniqFrom (f a # seen) f xs)"
      by simp
    then show ?thesis
    proof
      assume "x = a"
      with False show ?thesis by simp
    next
      assume "x \<in> set (uniqFrom (f a # seen) f xs)"
      from Cons.IH [OF this] show ?thesis by simp
    qed
  qed
qed

lemma map_of_rev_distinct: "distinct (map fst al) \<Longrightarrow> map_of (rev al) = map_of al"
proof (induction al)
  case Nil
  then show ?case by simp
next
  case (Cons a al)
  then have IH: "map_of (rev al) = map_of al" and fresh: "fst a \<notin> fst ` set al"
    by auto
  have "map_of al (fst a) = None"
    using fresh by (simp add: map_of_eq_None_iff)
  then show ?case
    by (cases a) (auto simp: IH map_add_def fun_eq_iff split: option.splits)
qed

lemma keys_uniqFrom: "distinct (map f (uniqFrom seen f xs))"
  by (induction xs arbitrary: seen) (auto dest: uniqFrom_unseen)

lemma map_of_keyed: "map_of (map (\<lambda>x. (f x, x)) xs) k = find (\<lambda>x. f x = k) xs"
  by (induction xs) auto

lemma keyBy_uniqBy: "keyBy f (uniqBy f xs) k = find (\<lambda>x. f x = k) xs"
proof -
  let ?ys = "uniqBy f xs"
  have d: "distinct (map fst (map (\<lambda>x. (f x, x)) ?ys))"
    using keys_uniqFrom [of f "[]" xs] by (simp add: uniqBy_def comp_def)
  have "map_of (rev (map (\<lambda>x. (f x, x)) ?ys)) = map_of (map (\<lambda>x. (f x, x)) ?ys)"
    using d by (rule map_of_rev_distinct)
  then have "keyBy f ?ys k = map_of (map (\<lambda>x. (f x, x)) ?ys) k"
    by (simp add: keyBy_def)
  then show ?thesis
    by (simp add: map_of_keyed uniqBy_def find_uniqFrom)
qed

lemma mapE_fails: "x \<in> set xs \<Longrightarrow> f x = Inl e \<Longrightarrow> \<exists>e'. mapE f xs = Inl e'"
  by (induction xs) (auto split: sum.splits)

lemma candidate_sel [simp]:
  "identifier (candidate q t a) = identifier q"
  "tag (candidate q t a) = t"
  "alternatives (candidate q t a) = a"
  by (simp_all add: candidate_def identifier_def)

lemma ranked_sel [simp]:
  "identifier (ranked c t p) = identifier c"
  "tag (ranked c t p) = t"
  "priority (ranked c t p) = p"
  "alternatives (ranked c t p) = alternatives c"
  by (simp_all add: ranked_def identifier_def)

lemma withTag_sel [simp]:
  "identifier (withTag q t) = identifier q"
  "tag (withTag q t) = t"
  "file (withTag q t) = file q"
  "text (withTag q t) = text q"
  by (simp_all add: withTag_def identifier_def)

lemma set_candidates:
  "set (candidates queries) =
     {candidate q t (suggestedTags q) | q t. q \<in> set queries \<and> t \<in> set (suggestedTags q)}"
  by (auto simp: candidates_def)

lemma identifiers_candidates:
  "identifier ` set (candidates queries) =
     {identifier q | q. q \<in> set queries \<and> suggestedTags q \<noteq> []}"
proof (intro set_eqI iffI)
  fix k assume "k \<in> identifier ` set (candidates queries)"
  then obtain q t where "q \<in> set queries" "t \<in> set (suggestedTags q)" "k = identifier q"
    unfolding set_candidates by auto
  then show "k \<in> {identifier q | q. q \<in> set queries \<and> suggestedTags q \<noteq> []}"
    by auto
next
  fix k assume "k \<in> {identifier q | q. q \<in> set queries \<and> suggestedTags q \<noteq> []}"
  then obtain q where q: "q \<in> set queries" "suggestedTags q \<noteq> []" "k = identifier q"
    by auto
  then obtain t where "t \<in> set (suggestedTags q)"
    by (cases "suggestedTags q") auto
  with q have "candidate q t (suggestedTags q) \<in> set (candidates queries)"
    unfolding set_candidates by blast
  then have "identifier (candidate q t (suggestedTags q)) \<in> identifier ` set (candidates queries)"
    by (rule imageI)
  with q show "k \<in> identifier ` set (candidates queries)"
    by simp
qed

lemma retag_member:
  assumes "q \<in> set arr"
  shows "\<exists>k. findIndex (\<lambda>ob. tag ob = tag q) arr = Some k \<and> k < length arr \<and>
           tag (arr ! k) = tag q \<and> (\<forall>j<k. tag (arr ! j) \<noteq> tag q) \<and>
           retag arr q = Inr (ranked q
             (if identifier (arr ! k) = identifier q then tag q else tag q @ ''_'' @ String_nat k)
             (if identifier (arr ! k) = identifier q then 0 else 1))"
proof -
  from assms have "findIndex (\<lambda>ob. tag ob = tag q) arr \<noteq> None"
    by (auto simp: findIndex_None)
  then obtain k where k: "findIndex (\<lambda>ob. tag ob = tag q) arr = Some k"
    by auto
  from findIndex_Some [OF k] k show ?thesis
    by (auto simp: retag_def Let_def)
qed

lemma rankedCandidates_total:
  "\<exists>rs. rankedCandidates queries = Inr rs \<and>
        list_all2 (\<lambda>c r. retag (sortedCandidates queries) c = Inr r) (sortedCandidates queries) rs"
proof -
  let ?arr = "sortedCandidates queries"
  have "\<forall>c\<in>set ?arr. \<exists>r. retag ?arr c = Inr r"
    using retag_member by blast
  then have "\<forall>c\<in>set ?arr. retag ?arr c = Inr (projr (retag ?arr c))"
    by auto
  then have "mapE (retag ?arr) ?arr = Inr (map (\<lambda>c. projr (retag ?arr c)) ?arr)"
    by (intro mapE_total) simp
  then show ?thesis
    by (auto simp: rankedCandidates_def Let_def dest: mapE_Inr_D)
qed

lemma retag_identifier: "retag arr c = Inr r \<Longrightarrow> identifier r = identifier c"
  by (auto simp: retag_def Let_def split: option.splits)

lemma ranked_identifiers:
  assumes "rankedCandidates queries = Inr rs"
  shows "identifier ` set rs = {identifier q | q. q \<in> set queries \<and> suggestedTags q \<noteq> []}"
proof -
  let ?arr = "sortedCandidates queries"
  from assms rankedCandidates_total [of queries]
  have "list_all2 (\<lambda>c r. retag ?arr c = Inr r) ?arr rs"
    by auto
  then have "list_all2 (\<lambda>c r. identifier r = identifier c) ?arr rs"
    by (rule list_all2_mono) (simp add: retag_identifier)
  then have "map identifier rs = map identifier ?arr"
    by (induction rule: list_all2_induct) auto
  then have "identifier ` set rs = identifier ` set ?arr"
    by (metis set_map)
  then show ?thesis
    by (simp add: sortedCandidates_def sortBy_def identifiers_candidates)
qed

lemma tagMap_lookup:
  "\<exists>rs. rankedCandidates queries = Inr rs \<and>
        tagMap queries = Inr (\<lambda>k. find (\<lambda>r. identifier r = k) (sortBy priority rs))"
proof -
  from rankedCandidates_total obtain rs where "rankedCandidates queries = Inr rs"
    by blast
  then show ?thesis
    by (auto simp: tagMap_def keyBy_uniqBy)
qed

lemma tagMap_None:
  assumes "tagMap queries = Inr m"
  shows "m k = None \<longleftrightarrow> (\<forall>q\<in>set queries. identifier q = k \<longrightarrow> suggestedTags q = [])"
proof -
  from tagMap_lookup [of queries] assms obtain rs where
    rs: "rankedCandidates queries = Inr rs"
    and m: "m = (\<lambda>k. find (\<lambda>r. identifier r = k) (sortBy priority rs))"
    by auto
  have "m k = None \<longleftrightarrow> k \<notin> identifier ` set rs"
    by (auto simp: m find_None_iff sortBy_def)
  then show ?thesis
    unfolding ranked_identifiers [OF rs] by auto
qed

lemma lookupTag_cases:
  "lookupTag m q = (case m (identifier q) of None \<Rightarrow> Inl TypeError | Some r \<Rightarrow> Inr (withTag q (tag r)))"
  by (simp add: lookupTag_def)

lemma mapE_only_error:
  "(\<And>x e. f x = Inl e \<Longrightarrow> e = e0) \<Longrightarrow> mapE f xs = Inl e \<Longrightarrow> e = e0"
  by (induction xs) (auto split: sum.splits)

lemma set_objectEntries: "set (objectEntries added) = set added"
  by (auto simp: objectEntries_def)

lemma groupBy_member:
  "(k, g) \<in> set (groupBy f xs) \<Longrightarrow> set g \<subseteq> set xs \<and> (\<forall>x\<in>set g. f x = k) \<and> g \<noteq> []"
proof (induction f xs rule: groupBy.induct)
  case (1 f)
  then show ?case by simp
next
  case (2 f x xs)
  from "2.prems" consider "k = f x" "g = x # filter (\<lambda>y. f y = f x) xs"
    | "(k, g) \<in> set (groupBy f (filter (\<lambda>y. f y \<noteq> f x) xs))"
    by auto
  then show ?case
  proof cases
    case 1
    then show ?thesis by auto
  next
    case 2
    from "2.IH" [OF this] show ?thesis by auto
  qed
qed

lemma addTags_by_identifier:
  assumes "addTags qs = Inr tagged"
  shows "\<exists>m :: string \<rightharpoonup> Ranked.
           \<forall>a\<in>set tagged. \<exists>q\<in>set qs. \<exists>r. m (identifier a) = Some r \<and> a = withTag q (tag r)"
proof -
  from assms obtain m where m: "tagMap qs = Inr m" and run: "mapE (lookupTag m) qs = Inr tagged"
    by (auto simp: addTags_def split: sum.splits)
  from mapE_Inr_D [OF run] have all: "list_all2 (\<lambda>q a. lookupTag m q = Inr a) qs tagged" .
  have "\<forall>a\<in>set tagged. \<exists>q\<in>set qs. \<exists>r. m (identifier a) = Some r \<and> a = withTag q (tag r)"
  proof
    fix a assume "a \<in> set tagged"
    then obtain i where i: "i < length tagged" "a = tagged ! i"
      by (auto simp: in_set_conv_nth)
    with all have len: "i < length qs" and look: "lookupTag m (qs ! i) = Inr a"
      by (auto simp: list_all2_conv_all_nth)
    from look obtain r where "m (identifier (qs ! i)) = Some r" "a = withTag (qs ! i) (tag r)"
      by (auto simp: lookupTag_def split: option.splits)
    with len show "\<exists>q\<in>set qs. \<exists>r. m (identifier a) = Some r \<and> a = withTag q (tag r)"
      by (intro bexI [of _ "qs ! i"] exI [of _ r]) auto
  qed
  then show ?thesis by blast
qed

lemma taggedGroups_member:
  assumes "taggedGroups queries = Inr groups" and "g \<in> set groups"
  shows "\<exists>qs. (fst g, qs) \<in> set (groupBy file queries) \<and> addTags qs = Inr (snd g)"
proof -
  let ?step = "\<lambda>g. case addTags (snd g) of Inl e \<Rightarrow> Inl e | Inr tagged \<Rightarrow> Inr (fst g, tagged)"
  from assms(1) have all: "list_all2 (\<lambda>x y. ?step x = Inr y) (objectEntries (groupBy file queries)) groups"
    unfolding taggedGroups_def by (rule mapE_Inr_D)
  from assms(2) obtain i where i: "i < length groups" "g = groups ! i"
    by (auto simp: in_set_conv_nth)
  with all have len: "i < length (objectEntries (groupBy file queries))"
    and step: "?step (objectEntries (groupBy file queries) ! i) = Inr g"
    by (auto simp: list_all2_conv_all_nth)
  obtain k qs where kq: "objectEntries (groupBy file queries) ! i = (k, qs)"
    by (cases "objectEntries (groupBy file queries) ! i")
  with len have "(k, qs) \<in> set (objectEntries (groupBy file queries))"
    by (metis nth_mem)
  then have mem: "(k, qs) \<in> set (groupBy file queries)"
    by (simp only: set_objectEntries)
  from step kq have "addTags qs = Inr (snd g)" "fst g = k"
    by (auto split: sum.splits)
  with mem show ?thesis by blast
qed






subsection \<open>Strings and groups\<close>

lemma startsWith_iff: "startsWith s p \<longleftrightarrow> (\<exists>b. s = p @ b)"
  by (induction s p rule: startsWith.induct) auto

lemma includesStr_iff: "includesStr s p \<longleftrightarrow> (\<exists>a b. s = a @ p @ b)"
proof (induction s)
  case Nil
  then show ?case by auto
next
  case (Cons c cs)
  show ?case
  proof
    assume "includesStr (c # cs) p"
    then consider "startsWith (c # cs) p" | "includesStr cs p" by auto
    then show "\<exists>a b. c # cs = a @ p @ b"
    proof cases
      case 1
      then obtain b where "c # cs = p @ b" by (auto simp: startsWith_iff)
      then have "c # cs = [] @ p @ b" by simp
      then show ?thesis by blast
    next
      case 2
      with Cons.IH obtain a b where "cs = a @ p @ b" by auto
      then have "c # cs = (c # a) @ p @ b" by simp
      then show ?thesis by blast
    qed
  next
    assume "\<exists>a b. c # cs = a @ p @ b"
    then obtain a b where ab: "c # cs = a @ p @ b" by blast
    show "includesStr (c # cs) p"
    proof (cases a)
      case Nil
      with ab have "startsWith (c # cs) p" by (auto simp: startsWith_iff)
      then show ?thesis by simp
    next
      case (Cons x a')
      with ab have "cs = a' @ p @ b" by simp
      with Cons.IH have "includesStr cs p" by blast
      then show ?thesis by simp
    qed
  qed
qed

lemma join_member: "x \<in> set xs \<Longrightarrow> \<exists>a b. join sep xs = a @ x @ b"
proof (induction sep xs rule: join.induct)
  case (1 sep)
  then show ?case by simp
next
  case (2 sep y)
  then have "join sep [y] = [] @ x @ []" by simp
  then show ?case by blast
next
  case (3 sep y z zs)
  from "3.prems" consider "x = y" | "x \<in> set (z # zs)" by auto
  then show ?case
  proof cases
    case 1
    then have "join sep (y # z # zs) = [] @ x @ (sep @ join sep (z # zs))" by simp
    then show ?thesis by blast
  next
    case 2
    from "3.IH" [OF this] obtain a b where "join sep (z # zs) = a @ x @ b" by blast
    then have "join sep (y # z # zs) = (y @ sep @ a) @ x @ b" by simp
    then show ?thesis by blast
  qed
qed

lemma one_body_iff:
  "length (remdups xs) = 1 \<longleftrightarrow> xs \<noteq> [] \<and> (\<forall>x\<in>set xs. \<forall>y\<in>set xs. x = y)"
proof -
  have "length (remdups xs) = card (set xs)"
    by (simp add: length_remdups_card_conv)
  moreover have "card (set xs) = 1 \<longleftrightarrow> xs \<noteq> [] \<and> (\<forall>x\<in>set xs. \<forall>y\<in>set xs. x = y)"
  proof
    assume "card (set xs) = 1"
    then obtain b where "set xs = {b}"
      by (auto simp: card_1_singleton_iff)
    then show "xs \<noteq> [] \<and> (\<forall>x\<in>set xs. \<forall>y\<in>set xs. x = y)"
      by auto
  next
    assume a: "xs \<noteq> [] \<and> (\<forall>x\<in>set xs. \<forall>y\<in>set xs. x = y)"
    then have "set xs = {hd xs}"
      by (cases xs) auto
    then show "card (set xs) = 1"
      by simp
  qed
  ultimately show ?thesis by simp
qed

lemma groupBy_complete:
  "x \<in> set xs \<Longrightarrow> \<exists>g. (f x, g) \<in> set (groupBy f xs) \<and> set g = {y \<in> set xs. f y = f x}"
proof (induction f xs rule: groupBy.induct)
  case (1 f)
  then show ?case by simp
next
  case (2 f a xs)
  show ?case
  proof (cases "f x = f a")
    case True
    have "set (a # filter (\<lambda>y. f y = f a) xs) = {y \<in> set (a # xs). f y = f x}"
      using True by auto
    with True show ?thesis
      by (intro exI [of _ "a # filter (\<lambda>y. f y = f a) xs"]) simp
  next
    case False
    with "2.prems" have "x \<in> set (filter (\<lambda>y. f y \<noteq> f a) xs)"
      by auto
    from "2.IH" [OF this] obtain g where
      g: "(f x, g) \<in> set (groupBy f (filter (\<lambda>y. f y \<noteq> f a) xs))"
         "set g = {y \<in> set (filter (\<lambda>y. f y \<noteq> f a) xs). f y = f x}"
      by blast
    have "set g = {y \<in> set (a # xs). f y = f x}"
      unfolding g(2) using False by auto
    with g(1) show ?thesis
      by auto
  qed
qed

lemma render_result:
  "renderQueryInterface env (query # rest) interfaceName =
     (if \<exists>p\<in>set (query # rest). \<exists>q\<in>set (query # rest). interfaceBody p \<noteq> interfaceBody q
      then Inl (AssertionError (''Query group '' @ interfaceName @
             '' produced inconsistent interface bodies: '' @
             join '','' (map interfaceBody (query # rest))))
      else Inr (NL @ ''    '' @
             jsdocComment
               (if rest = []
                then [Some (''- query: '' @ BT @ jsdocQuery env (sql query) @ BT), comment query]
                else Some (''queries:'' @ NL @
                       join NL (map (\<lambda>q. ''- '' @ BT @ jsdocQuery env (sql q) @ BT) (query # rest)))
                     # map comment (query # rest)) @
             NL @ ''     export interface '' @ interfaceName @ '' '' @ interfaceBody query @
             NL @ ''  ''))"
proof -
  let ?g = "query # rest"
  let ?bodies = "map interfaceBody ?g"
  have one: "length (remdups ?bodies) = 1 \<longleftrightarrow>
      \<not> (\<exists>p\<in>set ?g. \<exists>q\<in>set ?g. interfaceBody p \<noteq> interfaceBody q)"
  proof -
    have "?bodies \<noteq> []" by simp
    moreover have "(\<forall>x\<in>set ?bodies. \<forall>y\<in>set ?bodies. x = y) \<longleftrightarrow>
        \<not> (\<exists>p\<in>set ?g. \<exists>q\<in>set ?g. interfaceBody p \<noteq> interfaceBody q)"
      unfolding set_map by blast
    ultimately show ?thesis
      by (simp only: one_body_iff simp_thms)
  qed
  have first: "?bodies ! 0 = interfaceBody query"
    by simp
  show ?thesis
  proof (cases "length (remdups ?bodies) = 1")
    case True
    with one show ?thesis
      unfolding renderQueryInterface_def
      by (simp only: list.case Let_def first if_True if_False simp_thms length_0_conv)
  next
    case False
    with one show ?thesis
      unfolding renderQueryInterface_def
      by (simp only: list.case Let_def first if_True if_False simp_thms length_0_conv)
  qed
qed

subsection \<open>Edits, the walk and the writer\<close>

lemma insort_key_snoc:
  "f a \<le> f x \<Longrightarrow> insort_key f a (ys @ [x]) = insort_key f a ys @ [x]"
  by (induction ys) auto

lemma sort_key_snoc:
  "\<forall>y\<in>set xs. f y \<le> f x \<Longrightarrow> sort_key f (xs @ [x]) = sort_key f xs @ [x]"
  by (induction xs) (auto simp: insort_key_snoc)

lemma applyEdits_insert_at_top:
  "applyEdits source (edits @ [\<lparr>start = 0, end = 0, replacement = r\<rparr>]) =
     r @ applyEdits source edits"
proof -
  let ?key = "\<lambda>e. - int (end e)"
  let ?ins = "\<lparr>start = 0, end = 0, replacement = r\<rparr>"
  have "\<forall>y\<in>set edits. ?key y \<le> ?key ?ins"
    by simp
  then have "sort_key ?key (edits @ [?ins]) = sort_key ?key edits @ [?ins]"
    by (rule sort_key_snoc)
  then show ?thesis
    by (simp add: applyEdits_def sortBy_def splice_def)
qed

lemma splice_within:
  "start e \<le> end e \<Longrightarrow> end e \<le> length pre \<Longrightarrow> splice (pre @ suf) e = splice pre e @ suf"
  by (simp add: splice_def)

lemma foldl_splice_prefix:
  "separated b es \<Longrightarrow> b \<le> length pre \<Longrightarrow>
   foldl splice (pre @ suf) es = foldl splice pre es @ suf"
proof (induction es arbitrary: b pre)
  case Nil
  then show ?case by simp
next
  case (Cons e es)
  then have e: "start e \<le> end e" "end e \<le> length pre" and rest: "separated (start e) es"
    by auto
  have "start e \<le> length (splice pre e)"
    using e by (simp add: splice_def)
  from Cons.IH [OF rest this] e show ?case
    by (simp add: splice_within)
qed

lemma foldl_splice_separated:
  "separated (length source) es \<Longrightarrow> foldl splice source es = replaceSpans source es"
proof (induction es arbitrary: source)
  case Nil
  then show ?case by simp
next
  case (Cons e es)
  then have e: "start e \<le> end e" "end e \<le> length source" and rest: "separated (start e) es"
    by auto
  let ?pre = "take (start e) source"
  have len: "length ?pre = start e"
    using e by simp
  have "foldl splice source (e # es) =
      foldl splice (?pre @ (replacement e @ drop (end e) source)) es"
    by (simp add: splice_def)
  also have "\<dots> = foldl splice ?pre es @ replacement e @ drop (end e) source"
    using foldl_splice_prefix [OF rest, of ?pre] len by simp
  also have "foldl splice ?pre es = replaceSpans ?pre es"
    using Cons.IH [of ?pre] rest len by simp
  finally show ?case by simp
qed

lemma separated_of_disjoint:
  assumes "sorted (map (\<lambda>e. - int (end e)) es)" and "distinct es"
    and "\<forall>e\<in>set es. start e < end e \<and> end e \<le> b"
    and "\<forall>a\<in>set es. \<forall>c\<in>set es. a \<noteq> c \<longrightarrow> disjointSpans a c"
  shows "separated b es"
  using assms
proof (induction es arbitrary: b)
  case Nil
  then show ?case by simp
next
  case (Cons e es)
  have bound: "\<forall>c\<in>set es. start c < end c \<and> end c \<le> start e"
  proof
    fix c assume c: "c \<in> set es"
    with Cons.prems(1) have le: "end c \<le> end e"
      by auto
    from c Cons.prems(2) have "e \<noteq> c" by auto
    with c Cons.prems(4) have "disjointSpans e c" by auto
    moreover from c Cons.prems(3) have "start c < end c" by simp
    ultimately have "end c \<le> start e"
      using le by (auto simp: disjointSpans_def)
    with \<open>start c < end c\<close> show "start c < end c \<and> end c \<le> start e"
      by simp
  qed
  have "separated (start e) es"
    using Cons.prems by (intro Cons.IH bound) auto
  with Cons.prems(3) show ?case
    by auto
qed

lemma visit_children:
  "visit grp (Node k s e f cs) = visit grp (Node k s e f []) @ concat (map (visit grp) cs)"
  by (simp only: visit.simps list.map concat.simps append_Nil2 append_assoc)

lemma set_visit_children:
  "set (visit grp (Node k s e f cs)) =
     set (visit grp (Node k s e f [])) \<union> (\<Union>c\<in>set cs. set (visit grp c))"
  by (subst visit_children) (simp only: set_append set_concat set_map image_image)

lemma visit_template:
  "visit grp (Node (TaggedTemplateExpression (Identifier tagText ts) tm) nodeStart nodeEnd fullText []) =
     (if tagText = ''sql''
      then (case find (\<lambda>q. text q = fullText) grp of
              Some m \<Rightarrow> [\<lparr>start = ts, end = tm, replacement = ''sql<queries.'' @ tag m @ ''>''\<rparr>]
            | None \<Rightarrow> [])
      else [])"
  by (simp only: visit.simps SyntaxKind.case TagNode.case append_Nil append_Nil2 list.map concat.simps)

lemma visit_own_template:
  "x \<in> set (visit grp (Node (TaggedTemplateExpression (Identifier tagText ts) tm)
        nodeStart nodeEnd fullText [])) \<longleftrightarrow>
     tagText = ''sql'' \<and>
     (\<exists>m. find (\<lambda>q. text q = fullText) grp = Some m \<and>
        x = \<lparr>start = ts, end = tm, replacement = ''sql<queries.'' @ tag m @ ''>''\<rparr>)"
  (is "x \<in> set ?v \<longleftrightarrow> _ \<and> (\<exists>m. ?f = Some m \<and> x = ?E m)")
proof (cases "tagText = ''sql''")
  case False
  then have "?v = []"
    by (simp only: visit_template if_False)
  then have "x \<notin> set ?v"
    by (simp only: list.set empty_iff not_False_eq_True)
  with False show ?thesis by blast
next
  case True
  show ?thesis
  proof (cases ?f)
    case None
    with True have "?v = []"
      by (simp only: visit_template if_True option.case simp_thms)
    then have "x \<notin> set ?v"
      by (simp only: list.set empty_iff not_False_eq_True)
    moreover from None have "\<not> (\<exists>m. ?f = Some m \<and> x = ?E m)"
      by (metis option.distinct(1))
    ultimately show ?thesis by blast
  next
    case (Some m)
    with True have v: "?v = [?E m]"
      by (simp only: visit_template if_True option.case simp_thms)
    have "x \<in> set ?v \<longleftrightarrow> x = ?E m"
      unfolding v by (simp only: list.set insert_iff empty_iff simp_thms)
    moreover have "(\<exists>m'. ?f = Some m' \<and> x = ?E m') \<longleftrightarrow> x = ?E m"
      unfolding Some by (metis option.inject)
    ultimately show ?thesis using True by blast
  qed
qed

lemma visit_own:
  "x \<in> set (visit grp (Node kind nodeStart nodeEnd fullText [])) \<longleftrightarrow>
      (\<exists>s en ft cs. Node (ModuleDeclaration ''queries'') s en ft cs =
          Node kind nodeStart nodeEnd fullText children \<and>
        x = \<lparr>start = s, end = en, replacement = []\<rparr>) \<or>
      (\<exists>ts tm s en ft cs m.
        Node (TaggedTemplateExpression (Identifier ''sql'' ts) tm) s en ft cs =
          Node kind nodeStart nodeEnd fullText children \<and>
        find (\<lambda>q. text q = ft) grp = Some m \<and>
        x = \<lparr>start = ts, end = tm, replacement = ''sql<queries.'' @ tag m @ ''>''\<rparr>)"
proof (cases kind)
  case (ModuleDeclaration nm)
  then show ?thesis by auto
next
  case (TaggedTemplateExpression tg tm)
  show ?thesis
  proof (cases tg)
    case (Identifier tagText ts)
    show ?thesis
      unfolding TaggedTemplateExpression Identifier visit_own_template by blast
  next
    case OtherExpression
    with TaggedTemplateExpression show ?thesis by simp
  qed
next
  case OtherKind
  then show ?thesis by simp
qed

lemma visit_edits:
  "x \<in> set (visit grp root) \<longleftrightarrow>
     (\<exists>s en ft cs. Node (ModuleDeclaration ''queries'') s en ft cs \<in> set (subnodes root) \<and>
        x = \<lparr>start = s, end = en, replacement = []\<rparr>) \<or>
     (\<exists>ts tm s en ft cs m.
        Node (TaggedTemplateExpression (Identifier ''sql'' ts) tm) s en ft cs \<in> set (subnodes root) \<and>
        find (\<lambda>q. text q = ft) grp = Some m \<and>
        x = \<lparr>start = ts, end = tm, replacement = ''sql<queries.'' @ tag m @ ''>''\<rparr>)"
proof (induction grp root rule: visit.induct)
  case (1 grp kind nodeStart nodeEnd fullText children)
  let ?n = "Node kind nodeStart nodeEnd fullText children"
  let ?own = "visit grp (Node kind nodeStart nodeEnd fullText [])"
  let ?M = "\<lambda>N. \<exists>s en ft cs. Node (ModuleDeclaration ''queries'') s en ft cs \<in> N \<and>
        x = \<lparr>start = s, end = en, replacement = []\<rparr>"
  let ?T = "\<lambda>N. \<exists>ts tm s en ft cs m.
        Node (TaggedTemplateExpression (Identifier ''sql'' ts) tm) s en ft cs \<in> N \<and>
        find (\<lambda>q. text q = ft) grp = Some m \<and>
        x = \<lparr>start = ts, end = tm, replacement = ''sql<queries.'' @ tag m @ ''>''\<rparr>"
  have nodes: "set (subnodes ?n) = {?n} \<union> (\<Union>c\<in>set children. set (subnodes c))"
    by simp
  have kids: "(\<exists>c\<in>set children. x \<in> set (visit grp c)) \<longleftrightarrow>
      (\<exists>c\<in>set children. ?M (set (subnodes c)) \<or> ?T (set (subnodes c)))"
    by (rule bex_cong [OF refl]) (rule "1.IH")
  have own: "x \<in> set ?own \<longleftrightarrow> ?M {?n} \<or> ?T {?n}"
    unfolding visit_own [of x grp kind nodeStart nodeEnd fullText children] by simp
  have step: "x \<in> set (visit grp ?n) \<longleftrightarrow>
      x \<in> set ?own \<or> (\<exists>c\<in>set children. x \<in> set (visit grp c))"
    unfolding set_visit_children [of grp kind nodeStart nodeEnd fullText children] by blast
  have modules: "?M (set (subnodes ?n)) \<longleftrightarrow>
      ?M {?n} \<or> (\<exists>c\<in>set children. ?M (set (subnodes c)))"
    unfolding nodes by blast
  have templates: "?T (set (subnodes ?n)) \<longleftrightarrow>
      ?T {?n} \<or> (\<exists>c\<in>set children. ?T (set (subnodes c)))"
    unfolding nodes by blast
  show ?case
    by (simp only: step own kids modules templates bex_disj_distrib disj_ac)
qed

lemma getFileWriter_elsewhere:
  assumes "getQueriesModule filePath \<noteq> filePath" and "fs filePath = Some source"
    and "queryInterfaces env grp = Inr content"
  shows "getFileWriter env getQueriesModule grp filePath fs =
     Inr (if endsWith filePath ''.sql''
          then fs(getQueriesModule filePath \<mapsto> prettifyOne env (getQueriesModule filePath) content)
          else (fs(getQueriesModule filePath \<mapsto> prettifyOne env (getQueriesModule filePath) content))
                 (filePath \<mapsto> prettifyOne env filePath
                    (if importExists source (importStatement env filePath (getQueriesModule filePath))
                     then applyEdits source (visit grp (createSourceFile env filePath source))
                     else importStatement env filePath (getQueriesModule filePath) @ NL @
                          applyEdits source (visit grp (createSourceFile env filePath source)))))"
  using assms
  by (simp add: getFileWriter_def Let_def applyEdits_insert_at_top)

lemma getFileWriter_same_file:
  assumes "getQueriesModule filePath = filePath" and "fs filePath = Some source"
    and "queriesModule env grp = Inr generated"
  shows "getFileWriter env getQueriesModule grp filePath fs =
     Inr (if endsWith filePath ''.sql'' then fs
          else fs(filePath \<mapsto> prettifyOne env filePath
                 (applyEdits source
                    (visit grp (createSourceFile env filePath source) @
                     [\<lparr>start = length source, end = length source, replacement = generated\<rparr>]))))"
  using assms
  by (simp add: getFileWriter_def Let_def)

lemma getFileWriter_Inr_elsewhere:
  assumes "getFileWriter env getQueriesModule grp filePath fs = Inr fs1"
    and "getQueriesModule filePath \<noteq> filePath"
  shows "\<exists>content. queryInterfaces env grp = Inr content"
  using assms
  by (auto simp: getFileWriter_def Let_def split: option.splits sum.splits if_splits)

lemma getFileWriter_Inr_same_file:
  assumes "getFileWriter env getQueriesModule grp filePath fs = Inr fs1"
    and "getQueriesModule filePath = filePath"
  shows "\<exists>generated. queriesModule env grp = Inr generated"
  using assms
  by (auto simp: getFileWriter_def Let_def split: option.splits sum.splits if_splits)

lemma first_match:
  "(\<exists>m. A \<and> find (\<lambda>q. text q = ft) grp = Some m \<and> x = E (tag m)) \<longleftrightarrow>
   (\<exists>i. A \<and> i < length grp \<and> text (grp ! i) = ft \<and> (\<forall>j<i. text (grp ! j) \<noteq> ft) \<and>
        x = E (tag (grp ! i)))"
proof
  assume "\<exists>m. A \<and> find (\<lambda>q. text q = ft) grp = Some m \<and> x = E (tag m)"
  then obtain m where m: "A" "find (\<lambda>q. text q = ft) grp = Some m" "x = E (tag m)"
    by blast
  from m(2) obtain i where "i < length grp" "text (grp ! i) = ft" "m = grp ! i"
    "\<forall>j<i. text (grp ! j) \<noteq> ft"
    unfolding find_Some_iff by blast
  with m(1,3) show "\<exists>i. A \<and> i < length grp \<and> text (grp ! i) = ft \<and>
      (\<forall>j<i. text (grp ! j) \<noteq> ft) \<and> x = E (tag (grp ! i))"
    by blast
next
  assume "\<exists>i. A \<and> i < length grp \<and> text (grp ! i) = ft \<and> (\<forall>j<i. text (grp ! j) \<noteq> ft) \<and>
        x = E (tag (grp ! i))"
  then obtain i where i: "A" "i < length grp" "text (grp ! i) = ft"
    "\<forall>j<i. text (grp ! j) \<noteq> ft" "x = E (tag (grp ! i))"
    by blast
  from i(2,3,4) have "find (\<lambda>q. text q = ft) grp = Some (grp ! i)"
    unfolding find_Some_iff by blast
  with i(1,5) show "\<exists>m. A \<and> find (\<lambda>q. text q = ft) grp = Some m \<and> x = E (tag m)"
    by blast
qed

lemma applyEdits_replace_region:
  assumes "s \<le> e" and "e \<le> length source"
  shows "applyEdits source
           [\<lparr>start = s, end = e, replacement = []\<rparr>,
            \<lparr>start = length source, end = length source, replacement = generated\<rparr>] =
         take s source @ drop e source @ generated"
proof (cases "e = length source")
  case True
  with assms show ?thesis
    by (simp add: applyEdits_def sortBy_def splice_def)
next
  case False
  with assms have "e < length source" by simp
  with assms show ?thesis
    by (simp add: applyEdits_def sortBy_def splice_def)
qed

lemma importExists_after_insert: "importExists (stmt @ rest) stmt"
proof -
  have "stmt @ rest = [] @ stmt @ rest" by simp
  then have "includesStr (stmt @ rest) stmt"
    unfolding includesStr_iff by blast
  then show ?thesis
    by (simp add: importExists_def)
qed
subsection \<open>Tag assignment\<close>

text \<open>
  C1. The claim says that two queries with the same identifier get the same tag even when
  they come from different files, the tags being assigned over all queries at once. The
  source groups the queries by file first and runs \<^verbatim>\<open>addTags\<close> on each group by its own:
  two files can name the same result shape differently. With the input below the shape with
  a numeric \<open>id\<close> is \<open>Message_id\<close> in \<open>a.ts\<close>, where another shape claims \<open>Message\<close>, and
  \<open>Message\<close> in \<open>b.ts\<close>.
\<close>

theorem tags_differ_across_files: "groupTagsOf (taggedGroups twoFiles) =
     Inr [(''a.ts'', [''Message'', ''Message_id'']), (''b.ts'', [''Message''])] \<and>
   identifier (twoFiles ! 1) = identifier (twoFiles ! 2) \<and>
   file (twoFiles ! 1) \<noteq> file (twoFiles ! 2)"
  by code_simp

text \<open>
  C1, as the source has it. Within the group of one file, two tagged queries with the same
  identifier carry the same tag, and every query of the group belongs to that file. The tags
  of every file are assigned before the first file is written: when \<^verbatim>\<open>addTags\<close> throws for
  the group of any file, the run ends with the file system untouched.
\<close>

theorem tags_agree_within_file:
  "(\<forall>e. taggedGroups queries = Inl e \<longrightarrow>
        writeTypeScriptFiles env getQueriesModule queries fs = (fs, Some e)) \<and>
   (\<forall>groups. taggedGroups queries = Inr groups \<longrightarrow>
      (\<forall>g\<in>set groups. \<forall>a\<in>set (snd g). \<forall>b\<in>set (snd g).
         file a = fst g \<and> (identifier a = identifier b \<longrightarrow> tag a = tag b)))"
proof -
  have barrier: "writeTypeScriptFiles env getQueriesModule queries fs = (fs, Some e)"
    if "taggedGroups queries = Inl e" for e
    using that by (simp add: writeTypeScriptFiles_def)
  have same: "file a = fst g \<and> (identifier a = identifier b \<longrightarrow> tag a = tag b)"
    if tg: "taggedGroups queries = Inr groups" and g: "g \<in> set groups"
      and a: "a \<in> set (snd g)" and b: "b \<in> set (snd g)" for groups g a b
  proof -
    from taggedGroups_member [OF tg g] obtain qs where
      mem: "(fst g, qs) \<in> set (groupBy file queries)" and tagged: "addTags qs = Inr (snd g)"
      by blast
    from addTags_by_identifier [OF tagged] obtain m :: "string \<rightharpoonup> Ranked" where
      m: "\<forall>a\<in>set (snd g). \<exists>q\<in>set qs. \<exists>r. m (identifier a) = Some r \<and> a = withTag q (tag r)"
      by blast
    from m a obtain qa ra where
      qa: "qa \<in> set qs" "m (identifier a) = Some ra" "a = withTag qa (tag ra)"
      by blast
    from m b obtain qb rb where
      qb: "qb \<in> set qs" "m (identifier b) = Some rb" "b = withTag qb (tag rb)"
      by blast
    from groupBy_member [OF mem] qa(1) have "file qa = fst g"
      by blast
    with qa(3) have f: "file a = fst g"
      by simp
    have t: "identifier a = identifier b \<longrightarrow> tag a = tag b"
    proof
      assume "identifier a = identifier b"
      with qa(2) qb(2) have "ra = rb" by simp
      with qa(3) qb(3) show "tag a = tag b" by simp
    qed
    from f t show ?thesis by blast
  qed
  from barrier same show ?thesis
    by blast
qed

theorem tags_agree_within_file_witness:
  "taggedGroups sharedShape =
     Inr [(''a.ts'', [withTag (sharedShape ! 0) ''Message'', withTag (sharedShape ! 1) ''Message''])] \<and>
   identifier (withTag (sharedShape ! 0) ''Message'') = identifier (withTag (sharedShape ! 1) ''Message'') \<and>
   file (withTag (sharedShape ! 0) ''Message'') = ''a.ts'' \<and>
   tag (withTag (sharedShape ! 0) ''Message'') = tag (withTag (sharedShape ! 1) ''Message'')"
proof -
  let ?a = "withTag (sharedShape ! 0) ''Message''"
  let ?b = "withTag (sharedShape ! 1) ''Message''"
  have ev: "taggedGroups sharedShape = Inr [(''a.ts'', [?a, ?b])]"
    by code_simp
  have same: "identifier ?a = identifier ?b"
    by code_simp
  from tags_agree_within_file [of sharedShape, THEN conjunct2, rule_format, OF ev,
      of "(''a.ts'', [?a, ?b])" ?a ?b] same
  have "file ?a = ''a.ts'' \<and> tag ?a = tag ?b"
    by simp
  with ev same show ?thesis
    by blast
qed



text \<open>
  C3. The claim says that two queries of one file with different identifiers never get the
  same tag. The suffix of a collision is the position of the first candidate carrying the
  bare name, which is the same for every loser: three result shapes that each suggest only
  \<open>Message\<close> are tagged \<open>Message\<close>, \<open>Message_0\<close> and \<open>Message_0\<close>.
\<close>

theorem losers_share_suffixed_tag: "tagsOf (addTags threeShapes) = Inr [''Message'', ''Message_0'', ''Message_0''] \<and>
  distinct (map identifier threeShapes)"
  by code_simp

text \<open>
  C10. The claim says that \<^verbatim>\<open>addTags\<close> throws whenever some query has no suggested tag.
  The tag map is keyed by identifier, so a query without suggestions is served by the
  candidates of another query with the same fields: here the first query suggests nothing
  and both queries are tagged \<open>Message\<close>.
\<close>

theorem empty_suggestions_served_by_same_shape: "suggestedTags (sharedShape ! 0) = [] \<and>
   tagsOf (addTags sharedShape) = Inr [''Message'', ''Message'']"
  by code_simp

text \<open>
  C10, as the source has it. \<^verbatim>\<open>addTags\<close> throws a \<^verbatim>\<open>TypeError\<close> when some query has an
  identifier for which no query of the list suggests a tag; otherwise it returns one tagged
  query for each query of the list.
\<close>

theorem addTags_fails_without_suggestion:
  "((\<exists>q\<in>set queries. \<forall>p\<in>set queries. identifier p = identifier q \<longrightarrow> suggestedTags p = [])
      \<longrightarrow> addTags queries = Inl TypeError) \<and>
   (\<not> (\<exists>q\<in>set queries. \<forall>p\<in>set queries. identifier p = identifier q \<longrightarrow> suggestedTags p = [])
      \<longrightarrow> (\<exists>tagged. addTags queries = Inr tagged \<and> length tagged = length queries))"
proof -
  from tagMap_lookup [of queries] obtain m where m: "tagMap queries = Inr m"
    by blast
  have run: "addTags queries = mapE (lookupTag m) queries"
    by (simp add: addTags_def m)
  have only: "\<And>e. mapE (lookupTag m) queries = Inl e \<Longrightarrow> e = TypeError"
    by (rule mapE_only_error [where f = "lookupTag m"])
       (auto simp: lookupTag_def split: option.splits)
  show ?thesis
  proof (intro conjI impI)
    assume "\<exists>q\<in>set queries. \<forall>p\<in>set queries. identifier p = identifier q \<longrightarrow> suggestedTags p = []"
    then obtain q where q: "q \<in> set queries" "m (identifier q) = None"
      using tagMap_None [OF m] by blast
    then have "lookupTag m q = Inl TypeError"
      by (simp add: lookupTag_def)
    from mapE_fails [of q queries "lookupTag m" TypeError, OF q(1) this] only show "addTags queries = Inl TypeError"
      by (auto simp: run)
  next
    assume no: "\<not> (\<exists>q\<in>set queries. \<forall>p\<in>set queries. identifier p = identifier q \<longrightarrow> suggestedTags p = [])"
    have "\<forall>q\<in>set queries. m (identifier q) \<noteq> None"
    proof
      fix q assume "q \<in> set queries"
      with no show "m (identifier q) \<noteq> None"
        unfolding tagMap_None [OF m] by blast
    qed
    then have "\<And>q. q \<in> set queries \<Longrightarrow>
        lookupTag m q = Inr (withTag q (tag (the (m (identifier q)))))"
      by (auto simp: lookupTag_def split: option.splits)
    then have "mapE (lookupTag m) queries =
        Inr (map (\<lambda>q. withTag q (tag (the (m (identifier q))))) queries)"
      by (rule mapE_total)
    then show "\<exists>tagged. addTags queries = Inr tagged \<and> length tagged = length queries"
      by (simp add: run)
  qed
qed

theorem addTags_fails_without_suggestion_witness:
  "addTags [messageQuery ''a.ts'' ''number'' []] = Inl TypeError \<and>
   (\<exists>tagged. addTags collidingPair = Inr tagged \<and> length tagged = length collidingPair)"
proof -
  have fails: "\<exists>q\<in>set [messageQuery ''a.ts'' ''number'' []].
       \<forall>p\<in>set [messageQuery ''a.ts'' ''number'' []].
         identifier p = identifier q \<longrightarrow> suggestedTags p = []"
    by (simp add: messageQuery_def)
  have fine: "\<not> (\<exists>q\<in>set collidingPair. \<forall>p\<in>set collidingPair.
         identifier p = identifier q \<longrightarrow> suggestedTags p = [])"
    by (simp add: collidingPair_def messageQuery_def)
  from addTags_fails_without_suggestion [of "[messageQuery ''a.ts'' ''number'' []]", THEN conjunct1, rule_format, OF fails]
    addTags_fails_without_suggestion [of collidingPair, THEN conjunct2, rule_format, OF fine]
  show ?thesis
    by blast
qed
subsection \<open>Rendering\<close>

text \<open>
  C4. For every field of a query the rendered body contains the line made of the field name
  as a JSON string, a colon and the type expression: the base type when the field is not null
  or typed \<open>any\<close> or \<open>unknown\<close>, and otherwise the base type unioned with null, which
  \<^verbatim>\<open>interfaceBody\<close> writes with the base type in parentheses. In the scenario \<open>foo\<close> renders
  as \<open>number\<close> and \<open>bar\<close> as the union \<open>(string) | null\<close> of \<open>string\<close> and null; the formatter,
  a collaborator outside this code, prints that union as \<open>string | null\<close>.
\<close>

theorem field_type_rendering:
  "f \<in> set (qfields query) \<Longrightarrow>
   includesStr (interfaceBody query)
     (JSON_stringify (name f) @ '': '' @
      (if notNull f \<or> typescript f = ''any'' \<or> typescript f = ''unknown''
       then typescript f else ''('' @ typescript f @ '') | null'') @ NL)"
proof -
  assume "f \<in> set (qfields query)"
  then have "fieldDecl f \<in> set (map fieldDecl (qfields query))" by simp
  from join_member [OF this] obtain a b where
    j: "join NL (map fieldDecl (qfields query)) = a @ fieldDecl f @ b" by blast
  let ?line = "JSON_stringify (name f) @ '': '' @ fieldType f @ NL"
  have "fieldDecl f = (NL @ ''          '' @ jsdocComment [fcomment f, Some (fieldMeta f)] @
         NL @ ''          '') @ ?line @ ''        ''"
    by (simp add: fieldDecl_def Let_def)
  with j have "interfaceBody query =
      (''{'' @ NL @ ''    '' @ a @ NL @ ''          '' @
        jsdocComment [fcomment f, Some (fieldMeta f)] @ NL @ ''          '')
      @ ?line @ (''        '' @ b @ NL @ ''}'')"
    by (simp add: interfaceBody_def)
  then have "includesStr (interfaceBody query) ?line"
    unfolding includesStr_iff by blast
  then show ?thesis
    by (simp add: fieldType_def)
qed

theorem field_type_rendering_witness:
  "fooField \<in> set (qfields testTableQuery) \<and> barField \<in> set (qfields testTableQuery) \<and>
   includesStr (interfaceBody testTableQuery) (JSON_stringify ''foo'' @ '': number'' @ NL) \<and>
   includesStr (interfaceBody testTableQuery) (JSON_stringify ''bar'' @ '': (string) | null'' @ NL)"
proof -
  have foo: "fooField \<in> set (qfields testTableQuery)"
    and bar: "barField \<in> set (qfields testTableQuery)"
    by (simp_all add: testTableQuery_def)
  from field_type_rendering [OF foo] field_type_rendering [OF bar] foo bar show ?thesis
    by (simp add: fooField_def barField_def)
qed

text \<open>
  C5. For a group with at least one query, as every group formed by tag has,
  \<^verbatim>\<open>renderQueryInterface\<close> throws if and only if two queries of the group render different
  bodies. When all bodies are the same it returns the declaration built from the body of the
  first query. A failing group makes \<^verbatim>\<open>queryInterfaces\<close> throw, so no declaration text is
  produced for the file.
\<close>

theorem render_fails_iff_bodies_differ:
  assumes "queryGroup \<noteq> []"
  shows "((\<exists>e. renderQueryInterface env queryGroup interfaceName = Inl e) \<longleftrightarrow>
           (\<exists>p\<in>set queryGroup. \<exists>q\<in>set queryGroup. interfaceBody p \<noteq> interfaceBody q)) \<and>
         ((\<forall>p\<in>set queryGroup. \<forall>q\<in>set queryGroup. interfaceBody p = interfaceBody q) \<longrightarrow>
           (\<exists>doc. renderQueryInterface env queryGroup interfaceName =
              Inr (NL @ ''    '' @ doc @ NL @ ''     export interface '' @ interfaceName @
                   '' '' @ interfaceBody (hd queryGroup) @ NL @ ''  ''))) \<and>
         (\<forall>grp. (\<exists>p\<in>set grp. \<exists>q\<in>set grp. tag p = tag q \<and> interfaceBody p \<noteq> interfaceBody q) \<longrightarrow>
           (\<exists>e. queryInterfaces env grp = Inl e))"
proof -
  from assms obtain query rest where g: "queryGroup = query # rest"
    by (cases queryGroup) auto
  have hd: "hd queryGroup = query"
    by (simp add: g)
  note rr = render_result [of env query rest interfaceName, folded g]
  have a: "(\<exists>e. renderQueryInterface env queryGroup interfaceName = Inl e) \<longleftrightarrow>
           (\<exists>p\<in>set queryGroup. \<exists>q\<in>set queryGroup. interfaceBody p \<noteq> interfaceBody q)"
  proof (cases "\<exists>p\<in>set queryGroup. \<exists>q\<in>set queryGroup. interfaceBody p \<noteq> interfaceBody q")
    case True
    then have "\<exists>e. renderQueryInterface env queryGroup interfaceName = Inl e"
      by (subst rr) (simp only: if_True, blast)
    with True show ?thesis by blast
  next
    case False
    then have "\<exists>t. renderQueryInterface env queryGroup interfaceName = Inr t"
      by (subst rr) (simp only: if_False, blast)
    then have "\<not> (\<exists>e. renderQueryInterface env queryGroup interfaceName = Inl e)"
      by auto
    with False show ?thesis by blast
  qed
  have b: "\<exists>doc. renderQueryInterface env queryGroup interfaceName =
              Inr (NL @ ''    '' @ doc @ NL @ ''     export interface '' @ interfaceName @
                   '' '' @ interfaceBody (hd queryGroup) @ NL @ ''  '')"
    if "\<forall>p\<in>set queryGroup. \<forall>q\<in>set queryGroup. interfaceBody p = interfaceBody q"
  proof -
    from that have "\<not> (\<exists>p\<in>set queryGroup. \<exists>q\<in>set queryGroup.
        interfaceBody p \<noteq> interfaceBody q)"
      by blast
    then show ?thesis
      by (subst rr) (simp only: if_False hd, blast)
  qed
  have c: "\<exists>e. queryInterfaces env grp = Inl e"
    if "\<exists>p\<in>set grp. \<exists>q\<in>set grp. tag p = tag q \<and> interfaceBody p \<noteq> interfaceBody q"
    for grp :: "TaggedQuery list"
  proof -
    from that obtain p q where pq: "p \<in> set grp" "q \<in> set grp" "tag p = tag q"
      "interfaceBody p \<noteq> interfaceBody q"
      by blast
    from groupBy_complete [OF pq(1), of tag] obtain ps where
      ps: "(tag p, ps) \<in> set (groupBy tag grp)" "set ps = {y \<in> set grp. tag y = tag p}"
      by blast
    from ps(1) have listed: "(tag p, ps) \<in> set (objectEntries (groupBy tag grp))"
      by (simp only: set_objectEntries)
    from ps(2) pq have mem: "p \<in> set ps" "q \<in> set ps"
      by auto
    then obtain x xs where x: "ps = x # xs"
      by (cases ps) auto
    from mem pq(4) have differ: "\<exists>p\<in>set ps. \<exists>q\<in>set ps. interfaceBody p \<noteq> interfaceBody q"
      by blast
    have "\<exists>e. renderQueryInterface env ps (tag p) = Inl e"
      using differ by (subst render_result [of env x xs "tag p", folded x]) (simp only: if_True, blast)
    then obtain e where "(\<lambda>g. renderQueryInterface env (snd g) (fst g)) (tag p, ps) = Inl e"
      by auto
    from mapE_fails [of "(tag p, ps)" "objectEntries (groupBy tag grp)"
        "\<lambda>g. renderQueryInterface env (snd g) (fst g)" e, OF listed this]
    obtain e' where "mapE (\<lambda>g. renderQueryInterface env (snd g) (fst g))
        (objectEntries (groupBy tag grp)) = Inl e'"
      by blast
    then have "queryInterfaces env grp = Inl e'"
      by (simp add: queryInterfaces_def)
    then show ?thesis
      by blast
  qed
  from a b c show ?thesis
    by blast
qed

theorem render_fails_iff_bodies_differ_witness:
  "[threeShapes ! 0, threeShapes ! 1] \<noteq> [] \<and>
   (\<exists>e. renderQueryInterface (exampleTools emptyTree) [threeShapes ! 0, threeShapes ! 1]
          ''Message_0'' = Inl e) \<and>
   (\<exists>doc. renderQueryInterface (exampleTools emptyTree) [testTableQuery] ''TestTable'' =
      Inr (NL @ ''    '' @ doc @ NL @ ''     export interface TestTable '' @
           interfaceBody testTableQuery @ NL @ ''  ''))"
proof -
  let ?g = "[threeShapes ! 0, threeShapes ! 1]"
  have differ: "\<exists>p\<in>set ?g. \<exists>q\<in>set ?g. interfaceBody p \<noteq> interfaceBody q"
  proof -
    have "interfaceBody (threeShapes ! 0) \<noteq> interfaceBody (threeShapes ! 1)"
      by code_simp
    then show ?thesis
      by (intro bexI [of _ "threeShapes ! 0"] bexI [of _ "threeShapes ! 1"]) simp_all
  qed
  have ne: "?g \<noteq> []" and ne1: "[testTableQuery] \<noteq> []"
    by simp_all
  have same: "\<forall>p\<in>set [testTableQuery]. \<forall>q\<in>set [testTableQuery]. interfaceBody p = interfaceBody q"
    by simp
  from render_fails_iff_bodies_differ [OF ne, of "exampleTools emptyTree" "''Message_0''", THEN conjunct1] differ
  have fails: "\<exists>e. renderQueryInterface (exampleTools emptyTree) ?g ''Message_0'' = Inl e"
    by blast
  from render_fails_iff_bodies_differ [OF ne1, of "exampleTools emptyTree" "''TestTable''", THEN conjunct2, THEN conjunct1,
      THEN mp, OF same]
  have "\<exists>doc. renderQueryInterface (exampleTools emptyTree) [testTableQuery] ''TestTable'' =
      Inr (NL @ ''    '' @ doc @ NL @ ''     export interface '' @ ''TestTable'' @ '' '' @
           interfaceBody (hd [testTableQuery]) @ NL @ ''  '')" .
  then have ok: "\<exists>doc. renderQueryInterface (exampleTools emptyTree) [testTableQuery] ''TestTable'' =
      Inr (NL @ ''    '' @ doc @ NL @ ''     export interface TestTable '' @
           interfaceBody testTableQuery @ NL @ ''  '')"
    by simp
  from ne fails ok show ?thesis
    by blast
qed
subsection \<open>Applying edits\<close>

text \<open>
  C8. The claim says that applying edits with two overlapping spans fails with an error.
  Lines 184 to 188 sort the edits and splice them one after the other; nothing compares two
  spans, and \<^verbatim>\<open>slice\<close> never throws. With the span from 4 to 6 inside the span from 2 to 8,
  the second splice uses offsets of the original text on the text the first splice left, and
  a spliced text is returned.
\<close>

theorem overlapping_edits_are_spliced:
  "applyEdits ''0123456789''
     [\<lparr>start = 2, end = 8, replacement = ''X''\<rparr>, \<lparr>start = 4, end = 6, replacement = ''Y''\<rparr>]
   = ''01X8Y'' \<and>
   \<not> disjointSpans \<lparr>start = 2, end = 8, replacement = ''X''\<rparr>
       \<lparr>start = 4, end = 6, replacement = ''Y''\<rparr>"
  by code_simp

text \<open>
  C8, as the source has it. When the edits, in descending order of end offset, are separated
  below the length of the text (each is a span within the text that ends at or before the
  start of the edit applied before it), applying them yields the text with each span replaced
  on its own. Edits that are distinct, each a non-empty span within the text, and pairwise
  without overlap are separated in that order.
\<close>

theorem separated_edits_replace_spans:
  "(separated (length source) (sortBy (\<lambda>e. - int (end e)) edits) \<longrightarrow>
      applyEdits source edits = replaceSpans source (sortBy (\<lambda>e. - int (end e)) edits)) \<and>
   (distinct edits \<and> (\<forall>e\<in>set edits. start e < end e \<and> end e \<le> length source) \<and>
    (\<forall>a\<in>set edits. \<forall>c\<in>set edits. a \<noteq> c \<longrightarrow> disjointSpans a c) \<longrightarrow>
      separated (length source) (sortBy (\<lambda>e. - int (end e)) edits))"
proof (intro conjI impI)
  assume "separated (length source) (sortBy (\<lambda>e. - int (end e)) edits)"
  then show "applyEdits source edits = replaceSpans source (sortBy (\<lambda>e. - int (end e)) edits)"
    by (simp add: applyEdits_def foldl_splice_separated)
next
  let ?es = "sortBy (\<lambda>e. - int (end e)) edits"
  assume a: "distinct edits \<and> (\<forall>e\<in>set edits. start e < end e \<and> end e \<le> length source) \<and>
    (\<forall>a\<in>set edits. \<forall>c\<in>set edits. a \<noteq> c \<longrightarrow> disjointSpans a c)"
  have "sorted (map (\<lambda>e. - int (end e)) ?es)"
    by (simp add: sortBy_def)
  moreover from a have "distinct ?es"
    by (simp add: sortBy_def)
  moreover from a have "\<forall>e\<in>set ?es. start e < end e \<and> end e \<le> length source"
    by (simp add: sortBy_def)
  moreover from a have "\<forall>a\<in>set ?es. \<forall>c\<in>set ?es. a \<noteq> c \<longrightarrow> disjointSpans a c"
    by (simp add: sortBy_def)
  ultimately show "separated (length source) ?es"
    by (rule separated_of_disjoint)
qed

theorem separated_edits_replace_spans_witness:
  "separated (length ''0123456789'')
     (sortBy (\<lambda>e. - int (end e))
        [\<lparr>start = 1, end = 3, replacement = ''A''\<rparr>, \<lparr>start = 5, end = 7, replacement = ''BCD''\<rparr>]) \<and>
   applyEdits ''0123456789''
     [\<lparr>start = 1, end = 3, replacement = ''A''\<rparr>, \<lparr>start = 5, end = 7, replacement = ''BCD''\<rparr>]
   = ''0A34BCD789''"
proof -
  let ?edits = "[\<lparr>start = 1, end = 3, replacement = ''A''\<rparr>,
                 \<lparr>start = 5, end = 7, replacement = ''BCD''\<rparr>]"
  have pre: "distinct ?edits \<and>
      (\<forall>e\<in>set ?edits. start e < end e \<and> end e \<le> length ''0123456789'') \<and>
      (\<forall>a\<in>set ?edits. \<forall>c\<in>set ?edits. a \<noteq> c \<longrightarrow> disjointSpans a c)"
    by (simp add: disjointSpans_def)
  from separated_edits_replace_spans [of "''0123456789''" ?edits, THEN conjunct2, THEN mp, OF pre]
  have sep: "separated (length ''0123456789'') (sortBy (\<lambda>e. - int (end e)) ?edits)" .
  from separated_edits_replace_spans [of "''0123456789''" ?edits, THEN conjunct1, THEN mp, OF sep]
  have "applyEdits ''0123456789'' ?edits =
      replaceSpans ''0123456789'' (sortBy (\<lambda>e. - int (end e)) ?edits)" .
  also have "\<dots> = ''0A34BCD789''"
    by (simp add: sortBy_def)
  finally show ?thesis
    using sep by blast
qed
subsection \<open>The walk and the writer\<close>

text \<open>
  C6. A second run on the output of a first run, with the same query group and the same
  destination mapping. When the destination is another file and the first run inserted the
  import, the text that the second run reads contains the import, the formatter being taken
  to keep an import spelled in one of the three ways; the second run schedules no import and
  writes the text patched by its walk alone. When the destination is the source file itself
  and the walk over the patched file finds the generated region, from \<open>s\<close> to \<open>e\<close>, and
  nothing else to rewrite, the second run writes the text with that span cut out and the
  newly generated region appended at its end: one region takes the place of the other.
  Whatever the tree, every module declaration named \<open>queries\<close> that the walk reaches is
  scheduled for deletion.
\<close>

theorem rerun_replaces_region:
  "(getQueriesModule filePath \<noteq> filePath \<and> \<not> endsWith filePath ''.sql'' \<and>
    fs filePath = Some source \<and>
    \<not> importExists source (importStatement env filePath (getQueriesModule filePath)) \<and>
    getFileWriter env getQueriesModule grp filePath fs = Inr fs1 \<and>
    (\<forall>t. importExists t (importStatement env filePath (getQueriesModule filePath)) \<longrightarrow>
         importExists (prettifyOne env filePath t)
           (importStatement env filePath (getQueriesModule filePath)))
    \<longrightarrow> (\<exists>src1 fs2. fs1 filePath = Some src1 \<and>
          importExists src1 (importStatement env filePath (getQueriesModule filePath)) \<and>
          getFileWriter env getQueriesModule grp filePath fs1 = Inr fs2 \<and>
          fs2 filePath = Some (prettifyOne env filePath
            (applyEdits src1 (visit grp (createSourceFile env filePath src1)))))) \<and>
   (getQueriesModule filePath = filePath \<and> \<not> endsWith filePath ''.sql'' \<and>
    getFileWriter env getQueriesModule grp filePath fs = Inr fs1 \<and>
    fs1 filePath = Some src1 \<and>
    visit grp (createSourceFile env filePath src1) = [\<lparr>start = s, end = e, replacement = []\<rparr>] \<and>
    s \<le> e \<and> e \<le> length src1
    \<longrightarrow> (\<exists>generated fs2. queriesModule env grp = Inr generated \<and>
          getFileWriter env getQueriesModule grp filePath fs1 = Inr fs2 \<and>
          fs2 filePath = Some (prettifyOne env filePath (take s src1 @ drop e src1 @ generated)))) \<and>
   (Node (ModuleDeclaration ''queries'') nodeStart nodeEnd fullText children \<in> set (subnodes root)
    \<longrightarrow> \<lparr>start = nodeStart, end = nodeEnd, replacement = []\<rparr> \<in> set (visit grp root))"
proof (intro conjI impI)
  let ?dest = "getQueriesModule filePath"
  let ?stmt = "importStatement env filePath ?dest"
  assume a: "?dest \<noteq> filePath \<and> \<not> endsWith filePath ''.sql'' \<and>
    fs filePath = Some source \<and> \<not> importExists source ?stmt \<and>
    getFileWriter env getQueriesModule grp filePath fs = Inr fs1 \<and>
    (\<forall>t. importExists t ?stmt \<longrightarrow> importExists (prettifyOne env filePath t) ?stmt)"
  then have dest: "?dest \<noteq> filePath" and ts: "\<not> endsWith filePath ''.sql''"
    and src: "fs filePath = Some source" and absent: "\<not> importExists source ?stmt"
    and run1: "getFileWriter env getQueriesModule grp filePath fs = Inr fs1"
    and keeps: "\<And>t. importExists t ?stmt \<Longrightarrow> importExists (prettifyOne env filePath t) ?stmt"
    by blast+
  from getFileWriter_Inr_elsewhere [OF run1 dest] obtain content where
    content: "queryInterfaces env grp = Inr content"
    by blast
  let ?patched1 = "?stmt @ NL @ applyEdits source (visit grp (createSourceFile env filePath source))"
  let ?src1 = "prettifyOne env filePath ?patched1"
  from run1 dest ts absent
  have fs1: "fs1 = (fs(?dest \<mapsto> prettifyOne env ?dest content))(filePath \<mapsto> ?src1)"
    unfolding getFileWriter_elsewhere
        [where getQueriesModule = getQueriesModule and filePath = filePath and fs = fs,
         OF dest src content]
    by simp
  then have read1: "fs1 filePath = Some ?src1"
    by simp
  have present: "importExists ?src1 ?stmt"
    by (rule keeps) (rule importExists_after_insert)
  let ?patched2 = "applyEdits ?src1 (visit grp (createSourceFile env filePath ?src1))"
  have "getFileWriter env getQueriesModule grp filePath fs1 =
      Inr ((fs1(?dest \<mapsto> prettifyOne env ?dest content))
             (filePath \<mapsto> prettifyOne env filePath ?patched2))"
    unfolding getFileWriter_elsewhere
        [where getQueriesModule = getQueriesModule and filePath = filePath and fs = fs1,
         OF dest read1 content]
    using ts present by simp
  with read1 present
  show "\<exists>src1 fs2. fs1 filePath = Some src1 \<and> importExists src1 ?stmt \<and>
          getFileWriter env getQueriesModule grp filePath fs1 = Inr fs2 \<and>
          fs2 filePath = Some (prettifyOne env filePath
            (applyEdits src1 (visit grp (createSourceFile env filePath src1))))"
    by (intro exI [of _ ?src1]) simp
next
  assume b: "getQueriesModule filePath = filePath \<and> \<not> endsWith filePath ''.sql'' \<and>
    getFileWriter env getQueriesModule grp filePath fs = Inr fs1 \<and>
    fs1 filePath = Some src1 \<and>
    visit grp (createSourceFile env filePath src1) = [\<lparr>start = s, end = e, replacement = []\<rparr>] \<and>
    s \<le> e \<and> e \<le> length src1"
  then have same: "getQueriesModule filePath = filePath" and ts: "\<not> endsWith filePath ''.sql''"
    and run1: "getFileWriter env getQueriesModule grp filePath fs = Inr fs1"
    and read1: "fs1 filePath = Some src1"
    and walk: "visit grp (createSourceFile env filePath src1) =
        [\<lparr>start = s, end = e, replacement = []\<rparr>]"
    and span: "s \<le> e" "e \<le> length src1"
    by blast+
  from getFileWriter_Inr_same_file [OF run1 same] obtain generated where
    generated: "queriesModule env grp = Inr generated"
    by blast
  have "getFileWriter env getQueriesModule grp filePath fs1 =
      Inr (fs1(filePath \<mapsto> prettifyOne env filePath (take s src1 @ drop e src1 @ generated)))"
    unfolding getFileWriter_same_file
        [where getQueriesModule = getQueriesModule and filePath = filePath and fs = fs1,
         OF same read1 generated]
    using ts by (simp add: walk applyEdits_replace_region [OF span])
  with generated
  show "\<exists>generated fs2. queriesModule env grp = Inr generated \<and>
          getFileWriter env getQueriesModule grp filePath fs1 = Inr fs2 \<and>
          fs2 filePath = Some (prettifyOne env filePath (take s src1 @ drop e src1 @ generated))"
    by simp
next
  assume "Node (ModuleDeclaration ''queries'') nodeStart nodeEnd fullText children
    \<in> set (subnodes root)"
  then show "\<lparr>start = nodeStart, end = nodeEnd, replacement = []\<rparr> \<in> set (visit grp root)"
    unfolding visit_edits [of _ grp root] by blast
qed

theorem rerun_replaces_region_witness:
  "fileAfter (runTwice (exampleTools exampleParse) defaultGetQueriesModule exampleGroup ''a.js''
       [''a.js'' \<mapsto> exampleSource]) ''a.js'' =
     Some (''import * as queries from '' @ SQ @ ''./__sql__/a.js'' @ SQ @ NL @
           ''q(sql<queries.Message>`select id from message`)'' @ NL) \<and>
   fileAfter (runTwice (exampleTools exampleParse) defaultGetQueriesModule exampleGroup ''a.ts''
       [''a.ts'' \<mapsto> exampleSource]) ''a.ts'' =
     Some (take 54 examplePatched @ drop (length examplePatched - 3) examplePatched @
           exampleGenerated)"
proof -
  let ?T = "exampleTools exampleParse"
  let ?D = "defaultGetQueriesModule"
  let ?imported = "''import * as queries from '' @ SQ @ ''./__sql__/a.js'' @ SQ @ NL @
           ''q(sql<queries.Message>`select id from message`)'' @ NL"
  have format: "\<And>path content. prettifyOne ?T path content = content"
    by (simp add: exampleTools_def)
  have elsewhere: "?D ''a.js'' \<noteq> ''a.js''" and js: "\<not> endsWith ''a.js'' ''.sql''"
    by code_simp+
  have source: "[''a.js'' \<mapsto> exampleSource] ''a.js'' = Some exampleSource"
    by simp
  have interfaces: "queryInterfaces ?T exampleGroup = Inr exampleInterfaces"
    by code_simp
  have absent: "\<not> importExists exampleSource (importStatement ?T ''a.js'' (?D ''a.js''))"
    by code_simp
  have run1: "getFileWriter ?T ?D exampleGroup ''a.js'' [''a.js'' \<mapsto> exampleSource] =
      Inr (firstRun ?D ''a.js'')"
    by (simp only: firstRun_def sum.case
        getFileWriter_elsewhere [where getQueriesModule = ?D and filePath = "''a.js''"
          and fs = "[''a.js'' \<mapsto> exampleSource]", OF elsewhere source interfaces])
  have keeps: "\<forall>t. importExists t (importStatement ?T ''a.js'' (?D ''a.js'')) \<longrightarrow>
      importExists (prettifyOne ?T ''a.js'' t) (importStatement ?T ''a.js'' (?D ''a.js''))"
    by (simp only: format simp_thms)
  from elsewhere js source absent run1 keeps
  have pre: "?D ''a.js'' \<noteq> ''a.js'' \<and> \<not> endsWith ''a.js'' ''.sql'' \<and>
      [''a.js'' \<mapsto> exampleSource] ''a.js'' = Some exampleSource \<and>
      \<not> importExists exampleSource (importStatement ?T ''a.js'' (?D ''a.js'')) \<and>
      getFileWriter ?T ?D exampleGroup ''a.js'' [''a.js'' \<mapsto> exampleSource] =
        Inr (firstRun ?D ''a.js'') \<and>
      (\<forall>t. importExists t (importStatement ?T ''a.js'' (?D ''a.js'')) \<longrightarrow>
         importExists (prettifyOne ?T ''a.js'' t) (importStatement ?T ''a.js'' (?D ''a.js'')))"
    by (intro conjI)
  from rerun_replaces_region [where getQueriesModule = ?D and filePath = "''a.js''"
      and fs = "[''a.js'' \<mapsto> exampleSource]" and source = exampleSource and env = ?T
      and grp = exampleGroup and ?fs1.0 = "firstRun ?D ''a.js''",
      THEN conjunct1, THEN mp, OF pre]
  obtain src1 fs2 where read1: "firstRun ?D ''a.js'' ''a.js'' = Some src1"
    and run2: "getFileWriter ?T ?D exampleGroup ''a.js'' (firstRun ?D ''a.js'') = Inr fs2"
    and after: "fs2 ''a.js'' = Some (prettifyOne ?T ''a.js''
        (applyEdits src1 (visit exampleGroup (createSourceFile ?T ''a.js'' src1))))"
    by blast
  have "firstRun ?D ''a.js'' ''a.js'' = Some ?imported"
    by code_simp
  with read1 have src1: "src1 = ?imported"
    by simp
  have again: "prettifyOne ?T ''a.js''
      (applyEdits ?imported (visit exampleGroup (createSourceFile ?T ''a.js'' ?imported))) =
      ?imported"
    by code_simp
  from after have "fs2 ''a.js'' = Some ?imported"
    unfolding src1 again .
  then have first: "fileAfter (runTwice ?T ?D exampleGroup ''a.js'' [''a.js'' \<mapsto> exampleSource])
      ''a.js'' = Some ?imported"
    by (simp only: fileAfter_def runTwice_def run1 run2 sum.case)

  have same: "?D ''a.ts'' = ''a.ts''" and ts: "\<not> endsWith ''a.ts'' ''.sql''"
    by code_simp+
  have source': "[''a.ts'' \<mapsto> exampleSource] ''a.ts'' = Some exampleSource"
    by simp
  have generated: "queriesModule ?T exampleGroup = Inr exampleGenerated"
    by code_simp
  have run1': "getFileWriter ?T ?D exampleGroup ''a.ts'' [''a.ts'' \<mapsto> exampleSource] =
      Inr (firstRun ?D ''a.ts'')"
    by (simp only: firstRun_def sum.case
        getFileWriter_same_file [where getQueriesModule = ?D and filePath = "''a.ts''"
          and fs = "[''a.ts'' \<mapsto> exampleSource]", OF same source' generated])
  have read1': "firstRun ?D ''a.ts'' ''a.ts'' = Some examplePatched"
    by code_simp
  have walk: "visit exampleGroup (createSourceFile ?T ''a.ts'' examplePatched) =
      [\<lparr>start = 54, end = length examplePatched - 3, replacement = []\<rparr>]"
    by code_simp
  have span: "54 \<le> length examplePatched - 3" "length examplePatched - 3 \<le> length examplePatched"
    by code_simp+
  from same ts run1' read1' walk span
  have pre': "?D ''a.ts'' = ''a.ts'' \<and> \<not> endsWith ''a.ts'' ''.sql'' \<and>
      getFileWriter ?T ?D exampleGroup ''a.ts'' [''a.ts'' \<mapsto> exampleSource] =
        Inr (firstRun ?D ''a.ts'') \<and>
      firstRun ?D ''a.ts'' ''a.ts'' = Some examplePatched \<and>
      visit exampleGroup (createSourceFile ?T ''a.ts'' examplePatched) =
        [\<lparr>start = 54, end = length examplePatched - 3, replacement = []\<rparr>] \<and>
      54 \<le> length examplePatched - 3 \<and> length examplePatched - 3 \<le> length examplePatched"
    by (intro conjI)
  from rerun_replaces_region [where getQueriesModule = ?D and filePath = "''a.ts''"
      and fs = "[''a.ts'' \<mapsto> exampleSource]" and env = ?T
      and grp = exampleGroup and ?fs1.0 = "firstRun ?D ''a.ts''" and ?src1.0 = examplePatched
      and s = 54 and e = "length examplePatched - 3",
      THEN conjunct2, THEN conjunct1, THEN mp, OF pre']
  obtain region fs2' where region: "queriesModule ?T exampleGroup = Inr region"
    and run2': "getFileWriter ?T ?D exampleGroup ''a.ts'' (firstRun ?D ''a.ts'') = Inr fs2'"
    and after': "fs2' ''a.ts'' = Some (prettifyOne ?T ''a.ts''
        (take 54 examplePatched @ drop (length examplePatched - 3) examplePatched @ region))"
    by blast
  from region generated have "region = exampleGenerated"
    by simp
  with after' have "fs2' ''a.ts'' =
      Some (take 54 examplePatched @ drop (length examplePatched - 3) examplePatched @
            exampleGenerated)"
    by (simp only: format)
  then have second: "fileAfter (runTwice ?T ?D exampleGroup ''a.ts'' [''a.ts'' \<mapsto> exampleSource])
      ''a.ts'' =
      Some (take 54 examplePatched @ drop (length examplePatched - 3) examplePatched @
           exampleGenerated)"
    by (simp only: fileAfter_def runTwice_def run1' run2' sum.case)
  from first second show ?thesis
    by (rule conjI)
qed

text \<open>
  C7. The edits that the walk schedules are exactly these: for every module declaration named
  \<open>queries\<close> that it reaches, the deletion of the span of the node; and for every tagged
  template that it reaches whose tag is the identifier \<open>sql\<close> and whose full text is the text
  of an entry of the query group, the replacement of the span from the start of the tag to
  the start of the template by \<open>sql<queries.TAG>\<close>, where \<open>TAG\<close> is the tag of the first
  such entry. A call site whose full text no entry has contributes no edit; the walk has no
  branch that throws.
\<close>

theorem call_sites_first_match:
  "x \<in> set (visit grp root) \<longleftrightarrow>
     (\<exists>s en ft cs. Node (ModuleDeclaration ''queries'') s en ft cs \<in> set (subnodes root) \<and>
        x = \<lparr>start = s, end = en, replacement = []\<rparr>) \<or>
     (\<exists>ts tm s en ft cs i.
        Node (TaggedTemplateExpression (Identifier ''sql'' ts) tm) s en ft cs \<in> set (subnodes root) \<and>
        i < length grp \<and> text (grp ! i) = ft \<and> (\<forall>j<i. text (grp ! j) \<noteq> ft) \<and>
        x = \<lparr>start = ts, end = tm, replacement = ''sql<queries.'' @ tag (grp ! i) @ ''>''\<rparr>)"
  unfolding visit_edits [of x grp root]
proof (rule arg_cong [where f = "(\<or>) _"], intro iff_exI)
  fix ts tm s en ft cs
  show "(\<exists>m. Node (TaggedTemplateExpression (Identifier ''sql'' ts) tm) s en ft cs
            \<in> set (subnodes root) \<and>
          find (\<lambda>q. text q = ft) grp = Some m \<and>
          x = \<lparr>start = ts, end = tm, replacement = ''sql<queries.'' @ tag m @ ''>''\<rparr>) =
     (\<exists>i. Node (TaggedTemplateExpression (Identifier ''sql'' ts) tm) s en ft cs
            \<in> set (subnodes root) \<and>
          i < length grp \<and> text (grp ! i) = ft \<and> (\<forall>j<i. text (grp ! j) \<noteq> ft) \<and>
          x = \<lparr>start = ts, end = tm, replacement = ''sql<queries.'' @ tag (grp ! i) @ ''>''\<rparr>)"
    by (rule first_match
        [where E = "\<lambda>t. \<lparr>start = ts, end = tm, replacement = ''sql<queries.'' @ t @ ''>''\<rparr>"])
qed

theorem call_sites_first_match_witness:
  "\<lparr>start = 2, end = 5, replacement = ''sql<queries.Message>''\<rparr>
     \<in> set (visit exampleGroup (exampleParse ''a.ts'' exampleSource)) \<and>
   \<lparr>start = 2, end = 5, replacement = ''sql<queries.Message>''\<rparr>
     \<notin> set (visit [] (exampleParse ''a.ts'' exampleSource)) \<and>
   applyEdits exampleSource (visit exampleGroup (exampleParse ''a.ts'' exampleSource)) =
     ''q(sql<queries.Message>`select id from message`)'' @ NL \<and>
   applyEdits exampleSource (visit [] (exampleParse ''a.ts'' exampleSource)) = exampleSource"
proof -
  let ?x = "\<lparr>start = 2, end = 5, replacement = ''sql<queries.Message>''\<rparr>"
  let ?root = "exampleParse ''a.ts'' exampleSource"
  let ?call = "Node (TaggedTemplateExpression (Identifier ''sql'' 2) 5) 2 29
                ''sql`select id from message`'' []"
  have nodes: "subnodes ?root = [Node OtherKind 0 (length exampleSource) exampleSource [?call], ?call]"
    by (simp add: exampleParse_def)
  have call: "?call \<in> set (subnodes ?root)"
    unfolding nodes by simp
  have entry: "0 < length exampleGroup \<and> text (exampleGroup ! 0) = ''sql`select id from message`'' \<and>
      (\<forall>j<0. text (exampleGroup ! j) \<noteq> ''sql`select id from message`'') \<and>
      ?x = \<lparr>start = 2, end = 5, replacement = ''sql<queries.'' @ tag (exampleGroup ! 0) @ ''>''\<rparr>"
    by (simp add: exampleGroup_def messageQuery_def)
  from call entry have matched: "?x \<in> set (visit exampleGroup ?root)"
    unfolding call_sites_first_match [of ?x exampleGroup ?root] by blast
  have "\<not> (\<exists>s en ft cs. Node (ModuleDeclaration ''queries'') s en ft cs \<in> set (subnodes ?root) \<and>
        ?x = \<lparr>start = s, end = en, replacement = []\<rparr>)"
    unfolding nodes by simp
  then have unmatched: "?x \<notin> set (visit [] ?root)"
    unfolding call_sites_first_match [of ?x "[]" ?root] by simp
  have rewritten: "applyEdits exampleSource (visit exampleGroup ?root) =
      ''q(sql<queries.Message>`select id from message`)'' @ NL"
    by code_simp
  have untouched: "applyEdits exampleSource (visit [] ?root) = exampleSource"
    by code_simp
  from matched unmatched rewritten untouched show ?thesis
    by (intro conjI)
qed

text \<open>
  C9. When the destination differs from the source path and the declarations render, the
  writer returns normally. The text it produces for the source file is the text patched by
  the walk, with the import statement and a line feed put before it if and only if the source
  text contains none of three spellings: the statement with single quotes, the statement with
  double quotes, and the default import with single quotes. The statement names the
  destination relative to the directory of the source file, without its extension. The text
  goes through the formatter to the source file; a source file whose name ends in \<open>.sql\<close> is
  not written (lines 190 to 192) and keeps its content.
\<close>

theorem import_inserted_iff_absent:
  assumes "getQueriesModule filePath \<noteq> filePath" and "fs filePath = Some source"
    and "queryInterfaces env grp = Inr content"
  shows "\<exists>fs' importPath.
     getFileWriter env getQueriesModule grp filePath fs = Inr fs' \<and>
     importPath = stripExtension (relativeUnixPath env (getQueriesModule filePath) (dirname env filePath)) \<and>
     fs' filePath =
       Some (if endsWith filePath ''.sql'' then source
             else prettifyOne env filePath
               (if includesStr source (''import * as queries from '' @ SQ @ ''./'' @ importPath @ SQ) \<or>
                   includesStr source
                     (''import * as queries from '' @ [CHR 0x22] @ ''./'' @ doubleQuotes importPath @
                      [CHR 0x22]) \<or>
                   includesStr source (''import queries from '' @ SQ @ ''./'' @ importPath @ SQ)
                then applyEdits source (visit grp (createSourceFile env filePath source))
                else ''import * as queries from '' @ SQ @ ''./'' @ importPath @ SQ @ NL @
                     applyEdits source (visit grp (createSourceFile env filePath source))))"
proof -
  let ?dest = "getQueriesModule filePath"
  let ?p = "stripExtension (relativeUnixPath env ?dest (dirname env filePath))"
  let ?stmt = "importStatement env filePath ?dest"
  have stmt: "?stmt = ''import * as queries from '' @ SQ @ ''./'' @ ?p @ SQ"
    by (simp add: importStatement_def)
  have dq: "doubleQuotes ?stmt =
      ''import * as queries from '' @ [CHR 0x22] @ ''./'' @ doubleQuotes ?p @ [CHR 0x22]"
    by (simp add: stmt doubleQuotes_def)
  have dflt: "replaceFirst ?stmt ''import * as'' ''import'' =
      ''import queries from '' @ SQ @ ''./'' @ ?p @ SQ"
    by (simp add: stmt)
  have exists: "importExists source ?stmt \<longleftrightarrow>
      includesStr source (''import * as queries from '' @ SQ @ ''./'' @ ?p @ SQ) \<or>
      includesStr source
        (''import * as queries from '' @ [CHR 0x22] @ ''./'' @ doubleQuotes ?p @ [CHR 0x22]) \<or>
      includesStr source (''import queries from '' @ SQ @ ''./'' @ ?p @ SQ)"
    unfolding importExists_def dq dflt unfolding stmt ..
  from assms(1) have other: "\<And>m v. (m(?dest \<mapsto> v)) filePath = m filePath"
    by simp
  show ?thesis
    unfolding getFileWriter_elsewhere
        [where getQueriesModule = getQueriesModule and filePath = filePath and fs = fs, OF assms]
      exists
    using assms(1) by (simp add: assms(2) stmt)
qed

theorem import_inserted_iff_absent_witness:
  "fileAfter (getFileWriter (exampleTools exampleParse) defaultGetQueriesModule exampleGroup ''a.js''
       [''a.js'' \<mapsto> exampleSource]) ''a.js'' =
     Some (''import * as queries from '' @ SQ @ ''./__sql__/a.js'' @ SQ @ NL @
           ''q(sql<queries.Message>`select id from message`)'' @ NL) \<and>
   fileAfter (getFileWriter (exampleTools emptyTree) defaultGetQueriesModule exampleGroup ''q.sql''
       [''q.sql'' \<mapsto> ''select id from message'']) ''q.sql'' = Some ''select id from message''"
proof -
  let ?tools = "exampleTools exampleParse"
  let ?walk = "applyEdits exampleSource
      (visit exampleGroup (createSourceFile ?tools ''a.js'' exampleSource))"
  have h1: "defaultGetQueriesModule ''a.js'' \<noteq> ''a.js''"
    by code_simp
  have h2: "[''a.js'' \<mapsto> exampleSource] ''a.js'' = Some exampleSource"
    by simp
  have h3: "queryInterfaces ?tools exampleGroup = Inr exampleInterfaces"
    by code_simp
  from import_inserted_iff_absent [where getQueriesModule = defaultGetQueriesModule and filePath = "''a.js''"
        and fs = "[''a.js'' \<mapsto> exampleSource]", OF h1 h2 h3]
  obtain fs' importPath where
    run: "getFileWriter ?tools defaultGetQueriesModule exampleGroup ''a.js''
        [''a.js'' \<mapsto> exampleSource] = Inr fs'"
    and path: "importPath = stripExtension
        (relativeUnixPath ?tools (defaultGetQueriesModule ''a.js'') (dirname ?tools ''a.js''))"
    and after: "fs' ''a.js'' =
       Some (if endsWith ''a.js'' ''.sql'' then exampleSource
             else prettifyOne ?tools ''a.js''
               (if includesStr exampleSource
                     (''import * as queries from '' @ SQ @ ''./'' @ importPath @ SQ) \<or>
                   includesStr exampleSource
                     (''import * as queries from '' @ [CHR 0x22] @ ''./'' @ doubleQuotes importPath @
                      [CHR 0x22]) \<or>
                   includesStr exampleSource
                     (''import queries from '' @ SQ @ ''./'' @ importPath @ SQ)
                then ?walk
                else ''import * as queries from '' @ SQ @ ''./'' @ importPath @ SQ @ NL @ ?walk))"
    by blast
  have known: "importPath = ''__sql__/a.js''"
    unfolding path by code_simp
  have "(if endsWith ''a.js'' ''.sql'' then exampleSource
         else prettifyOne ?tools ''a.js''
           (if includesStr exampleSource
                 (''import * as queries from '' @ SQ @ ''./'' @ ''__sql__/a.js'' @ SQ) \<or>
               includesStr exampleSource
                 (''import * as queries from '' @ [CHR 0x22] @ ''./'' @
                  doubleQuotes ''__sql__/a.js'' @ [CHR 0x22]) \<or>
               includesStr exampleSource
                 (''import queries from '' @ SQ @ ''./'' @ ''__sql__/a.js'' @ SQ)
            then ?walk
            else ''import * as queries from '' @ SQ @ ''./'' @ ''__sql__/a.js'' @ SQ @ NL @ ?walk)) =
        ''import * as queries from '' @ SQ @ ''./__sql__/a.js'' @ SQ @ NL @
         ''q(sql<queries.Message>`select id from message`)'' @ NL"
    by code_simp
  with after [unfolded known] have "fs' ''a.js'' =
      Some (''import * as queries from '' @ SQ @ ''./__sql__/a.js'' @ SQ @ NL @
         ''q(sql<queries.Message>`select id from message`)'' @ NL)"
    by (simp only:)
  then have written: "fileAfter (getFileWriter ?tools defaultGetQueriesModule exampleGroup ''a.js''
       [''a.js'' \<mapsto> exampleSource]) ''a.js'' =
     Some (''import * as queries from '' @ SQ @ ''./__sql__/a.js'' @ SQ @ NL @
           ''q(sql<queries.Message>`select id from message`)'' @ NL)"
    by (simp only: fileAfter_def run sum.case)
  have kept: "fileAfter (getFileWriter (exampleTools emptyTree) defaultGetQueriesModule exampleGroup
       ''q.sql'' [''q.sql'' \<mapsto> ''select id from message'']) ''q.sql'' =
     Some ''select id from message''"
    by code_simp
  from written kept show ?thesis
    by (rule conjI)
qed

end
